theory Spec2Isabelle
  imports Main "HOL-Library.Word"
begin

section \<open>The allocator of mal.c\<close>

text \<open>
  The model follows \<^verbatim>\<open>src/mal.c\<close> on an LP64 machine: pointers and \<^verbatim>\<open>size_t\<close> are
  64-bit words, \<^verbatim>\<open>unsigned\<close> is a 32-bit word, and the null pointer is the address 0.
\<close>

subsection \<open>Data\<close>

type_synonym addr = "64 word"

abbreviation NULL :: addr where
  "NULL \<equiv> 0"

text \<open>
  The struct \<^verbatim>\<open>s\<close> of \<^verbatim>\<open>union header\<close>: \<^verbatim>\<open>size_t size; unsigned is_free; union header *next\<close>.
\<close>

record header_t =
  s_size :: "64 word"
  s_is_free :: "32 word"
  s_next :: addr

text \<open>
  \<^verbatim>\<open>sizeof(header_t)\<close>: the struct takes 8 + 4 (+ 4 of padding) + 8 = 24 bytes, the other
  member of the union, \<^verbatim>\<open>char[16]\<close>, is shorter.
\<close>

definition sizeof_header_t :: "64 word" where
  "sizeof_header_t = 24"

text \<open>
  The state of the process as the allocator sees it. The globals \<^verbatim>\<open>head\<close> and \<^verbatim>\<open>tail\<close>;
  the memory, split by type into the header objects the code reaches through
  \<^verbatim>\<open>header_t *\<close> pointers (\<open>hdrs\<close>, by the address of the header) and the payload bytes it
  reaches through \<^verbatim>\<open>memset\<close> and \<^verbatim>\<open>memcpy\<close> (\<open>mem\<close>); and the operating system's side of
  \<^verbatim>\<open>sbrk\<close>: the program break \<open>brk\<close> and the highest break the system grants, \<open>brk_max\<close>.
  Keeping headers and payload bytes apart is right where no payload overlaps a header
  and no two headers overlap, as in the well-formed states below, whose blocks lie one
  after the other. The mutex \<^verbatim>\<open>global_malloc_lock\<close> makes each call one step; it is not
  part of the state.
\<close>

record state =
  head :: addr
  tail :: addr
  hdrs :: "addr \<Rightarrow> header_t"
  mem :: "addr \<Rightarrow> 8 word"
  brk :: addr
  brk_max :: addr

subsection \<open>The C library\<close>

text \<open>
  \<^verbatim>\<open>void *sbrk(intptr_t increment)\<close>, after its manual page: \<^verbatim>\<open>sbrk(0)\<close> returns the break;
  otherwise the break moves by the signed increment and the old break is returned, or
  \<^verbatim>\<open>(void *) -1\<close> is returned and the break stays where it is. \<open>sbrk_ok\<close> is the system's
  answer: growth fails beyond \<open>brk_max\<close>, a release fails below address 0. (A system
  refuses a release below the start of the data segment; in the examples the break never
  goes below its first value.) The argument of type \<^verbatim>\<open>size_t\<close> that the code passes is read
  as a signed number (\<open>sint\<close>).
\<close>

definition sbrk_ok :: "state \<Rightarrow> 64 word \<Rightarrow> bool" where
  "sbrk_ok s increment =
     (increment = 0 \<or>
      (if 0 \<le> sint increment
       then unat (brk s) + unat increment \<le> unat (brk_max s)
       else unat (- increment) \<le> unat (brk s)))"

definition sbrk :: "state \<Rightarrow> 64 word \<Rightarrow> addr \<times> state" where
  "sbrk s increment =
     (if sbrk_ok s increment then (brk s, s\<lparr>brk := brk s + increment\<rparr>) else (- 1, s))"

text \<open>
  \<^verbatim>\<open>memset(block, c, n)\<close> and \<^verbatim>\<open>memcpy(dst, src, n)\<close> on the payload bytes: the \<open>n\<close> bytes from
  \<open>block\<close> (from \<open>dst\<close>) on are written, the others keep their values.
\<close>

definition memset :: "state \<Rightarrow> addr \<Rightarrow> 8 word \<Rightarrow> 64 word \<Rightarrow> state" where
  "memset s block c n = s\<lparr>mem := (\<lambda>a. if a - block < n then c else mem s a)\<rparr>"

definition memcpy :: "state \<Rightarrow> addr \<Rightarrow> addr \<Rightarrow> 64 word \<Rightarrow> state" where
  "memcpy s dst src n =
     s\<lparr>mem := (\<lambda>a. if a - dst < n then mem s (src + (a - dst)) else mem s a)\<rparr>"

subsection \<open>get_free_block\<close>

text \<open>
  The loop of \<^verbatim>\<open>get_free_block\<close> walks the \<^verbatim>\<open>next\<close> links; on a cyclic list with no fitting
  block it does not return, which is the value \<open>None\<close>.
\<close>

partial_function (option) get_free_block_loop ::
    "(addr \<Rightarrow> header_t) \<Rightarrow> 64 word \<Rightarrow> addr \<Rightarrow> addr option" where
  "get_free_block_loop h sz cur =
     (if cur = NULL then Some NULL
      else if s_is_free (h cur) \<noteq> 0 \<and> sz \<le> s_size (h cur) then Some cur
      else get_free_block_loop h sz (s_next (h cur)))"

definition get_free_block :: "state \<Rightarrow> 64 word \<Rightarrow> addr option" where
  "get_free_block s sz = get_free_block_loop (hdrs s) sz (head s)"

subsection \<open>free\<close>

text \<open>The \<^verbatim>\<open>while (tmp)\<close> loop of \<^verbatim>\<open>free\<close>, which looks for the header before \<^verbatim>\<open>tail\<close>.\<close>

partial_function (option) free_loop :: "state \<Rightarrow> addr \<Rightarrow> state option" where
  "free_loop s tmp =
     (if tmp = NULL then Some s
      else
        (let s' = (if s_next (hdrs s tmp) = tail s
                   then s\<lparr>hdrs := (hdrs s)(tmp := (hdrs s tmp)\<lparr>s_next := NULL\<rparr>),
                          tail := tmp\<rparr>
                   else s)
         in free_loop s' (s_next (hdrs s' tmp))))"

definition free :: "state \<Rightarrow> addr \<Rightarrow> state option" where
  "free s block =
     (if block = NULL then Some s
      else
        (let header = block - sizeof_header_t;
             programbreak = fst (sbrk s 0)
         in if block + s_size (hdrs s header) = programbreak
            then
              (case (if head s = tail s then Some (s\<lparr>head := NULL, tail := NULL\<rparr>)
                     else free_loop s (head s)) of
                 None \<Rightarrow> None
               | Some s1 \<Rightarrow>
                   Some (snd (sbrk s1 (0 - s_size (hdrs s1 header) - sizeof_header_t))))
            else Some (s\<lparr>hdrs := (hdrs s)(header := (hdrs s header)\<lparr>s_is_free := 1\<rparr>)\<rparr>)))"

subsection \<open>malloc\<close>

definition malloc :: "state \<Rightarrow> 64 word \<Rightarrow> (addr \<times> state) option" where
  "malloc s sz =
     (if sz = 0 then Some (NULL, s)
      else
        (case get_free_block s sz of
           None \<Rightarrow> None
         | Some header \<Rightarrow>
             if header \<noteq> NULL
             then Some (NULL, s\<lparr>hdrs := (hdrs s)(header := (hdrs s header)\<lparr>s_is_free := 0\<rparr>)\<rparr>)
             else
               (let total_size = sizeof_header_t + sz;
                    (block, s1) = sbrk s total_size
                in if block = - 1 then Some (NULL, s1)
                   else
                     (let header = block;
                          s2 = s1\<lparr>hdrs := (hdrs s1)(header :=
                                 (hdrs s1 header)\<lparr>s_size := sz, s_is_free := 0, s_next := NULL\<rparr>)\<rparr>;
                          s3 = (if head s2 = NULL then s2\<lparr>head := header\<rparr> else s2);
                          s4 = (if tail s3 \<noteq> NULL
                                then s3\<lparr>hdrs := (hdrs s3)(tail s3 :=
                                       (hdrs s3 (tail s3))\<lparr>s_next := header\<rparr>)\<rparr>
                                else s3);
                          s5 = s4\<lparr>tail := header\<rparr>
                      in Some (header + sizeof_header_t, s5)))))"

subsection \<open>calloc and realloc\<close>

definition calloc :: "state \<Rightarrow> 64 word \<Rightarrow> 64 word \<Rightarrow> (addr \<times> state) option" where
  "calloc s num nsize =
     (if num = 0 \<or> nsize = 0 then Some (NULL, s)
      else
        (let sz = num * nsize
         in if nsize \<noteq> sz div num then Some (NULL, s)
            else
              (case malloc s sz of
                 None \<Rightarrow> None
               | Some (block, s1) \<Rightarrow>
                   if block = NULL then Some (NULL, s1)
                   else Some (block, memset s1 block 0 sz))))"

definition realloc :: "state \<Rightarrow> addr \<Rightarrow> 64 word \<Rightarrow> (addr \<times> state) option" where
  "realloc s block sz =
     (if block = NULL \<or> sz = 0 then malloc s sz
      else
        (let header = block - sizeof_header_t
         in if sz \<le> s_size (hdrs s header) then Some (block, s)
            else
              (case malloc s sz of
                 None \<Rightarrow> None
               | Some (ret, s1) \<Rightarrow>
                   if ret \<noteq> NULL
                   then
                     (case free (memcpy s1 ret block (s_size (hdrs s1 header))) block of
                        None \<Rightarrow> None
                      | Some s3 \<Rightarrow> Some (ret, s3))
                   else Some (ret, s1))))"

subsection \<open>Sequences of calls\<close>

text \<open>
  A call of the interface with its arguments; a handle is the address the caller passes.
  \<open>run\<close> makes the calls of a list one after the other and drops the values they return.
\<close>

datatype op =
    Malloc "64 word"
  | Calloc "64 word" "64 word"
  | Realloc addr "64 word"
  | Free addr

fun exec_op :: "state \<Rightarrow> op \<Rightarrow> state option" where
  "exec_op s (Malloc sz) = map_option snd (malloc s sz)"
| "exec_op s (Calloc num nsize) = map_option snd (calloc s num nsize)"
| "exec_op s (Realloc block sz) = map_option snd (realloc s block sz)"
| "exec_op s (Free block) = free s block"

fun run :: "state \<Rightarrow> op list \<Rightarrow> state option" where
  "run s [] = Some s"
| "run s (x # xs) = (case exec_op s x of None \<Rightarrow> None | Some s' \<Rightarrow> run s' xs)"

subsection \<open>The block list\<close>

text \<open>
  \<open>path h p as\<close>: following \<^verbatim>\<open>next\<close> from \<open>p\<close> visits exactly the headers \<open>as\<close>, in this
  order, and then reaches \<^verbatim>\<open>NULL\<close>.
\<close>

fun path :: "(addr \<Rightarrow> header_t) \<Rightarrow> addr \<Rightarrow> addr list \<Rightarrow> bool" where
  "path h p [] = (p = NULL)"
| "path h p (a # as) = (p = a \<and> a \<noteq> NULL \<and> path h (s_next (h a)) as)"

text \<open>
  \<^verbatim>\<open>print_mem_list\<close> walks the list from \<^verbatim>\<open>head\<close>: \<open>traverse\<close> is its loop and returns the
  addresses of the headers met; what it prints is \<^verbatim>\<open>head\<close>, \<^verbatim>\<open>tail\<close> and, for each header,
  its address, size, flag and link. On a cyclic list it does not return.
\<close>

partial_function (option) traverse :: "(addr \<Rightarrow> header_t) \<Rightarrow> addr \<Rightarrow> addr list option" where
  "traverse h cur =
     (if cur = NULL then Some []
      else Option.bind (traverse h (s_next (h cur))) (\<lambda>as. Some (cur # as)))"

definition block_list :: "state \<Rightarrow> addr list option" where
  "block_list s = traverse (hdrs s) (head s)"

definition print_mem_list ::
    "state \<Rightarrow> (addr \<times> addr \<times> (addr \<times> 64 word \<times> 32 word \<times> addr) list) option" where
  "print_mem_list s =
     map_option
       (\<lambda>as. (head s, tail s,
          map (\<lambda>a. (a, s_size (hdrs s a), s_is_free (hdrs s a), s_next (hdrs s a))) as))
       (block_list s)"

subsection \<open>Well-formed states\<close>

text \<open>The end of a block's payload, as a natural number: header address + header + size.\<close>

definition block_end :: "(addr \<Rightarrow> header_t) \<Rightarrow> addr \<Rightarrow> nat" where
  "block_end h a = unat a + unat sizeof_header_t + unat (s_size (h a))"

text \<open>
  \<open>contig h as e\<close>: each block of \<open>as\<close> ends where the next one starts, and the last one
  ends at \<open>e\<close>.
\<close>

fun contig :: "(addr \<Rightarrow> header_t) \<Rightarrow> addr list \<Rightarrow> addr \<Rightarrow> bool" where
  "contig h [] e = True"
| "contig h (a # as) e =
     (block_end h a = unat (case as of [] \<Rightarrow> e | b # _ \<Rightarrow> b) \<and> contig h as e)"

text \<open>
  The states the allocator works in (the invariants of the specification's data model),
  with the list \<open>as\<close> of its headers: the list hangs from \<^verbatim>\<open>head\<close>, \<^verbatim>\<open>tail\<close> is its last
  header, the blocks lie one after the other and the last one ends at the break, and the
  break is a user-space address: not 0, at most \<open>brk_max\<close>, in the lower half of the
  address space.
\<close>

definition wf_list :: "state \<Rightarrow> addr list \<Rightarrow> bool" where
  "wf_list s as =
     (path (hdrs s) (head s) as \<and>
      tail s = (if as = [] then NULL else last as) \<and>
      contig (hdrs s) as (brk s) \<and>
      brk s \<noteq> 0 \<and> brk s \<le> brk_max s \<and> unat (brk_max s) < 2 ^ 63)"

text \<open>The state before the first call: no block, and the break where the system put it.\<close>

definition initial :: "state \<Rightarrow> bool" where
  "initial s = wf_list s []"

text \<open>The test of \<^verbatim>\<open>get_free_block\<close> on one header.\<close>

definition fits :: "(addr \<Rightarrow> header_t) \<Rightarrow> 64 word \<Rightarrow> addr \<Rightarrow> bool" where
  "fits h sz a = (s_is_free (h a) \<noteq> 0 \<and> sz \<le> s_size (h a))"

subsection \<open>The invariant of the list and the contract of the callers\<close>

text \<open>
  What the specification asks of the list: \<^verbatim>\<open>head\<close> and \<^verbatim>\<open>tail\<close> are null exactly when the
  list is empty, the traversal from \<^verbatim>\<open>head\<close> ends, meets each header once, in strictly
  increasing address order, and meets \<^verbatim>\<open>tail\<close> last, whose \<^verbatim>\<open>next\<close> is null.
\<close>

definition block_list_inv :: "state \<Rightarrow> bool" where
  "block_list_inv s =
     (case block_list s of
        None \<Rightarrow> False
      | Some as \<Rightarrow>
          (head s = NULL) = (as = []) \<and> (tail s = NULL) = (as = []) \<and>
          distinct as \<and> sorted_wrt (<) as \<and>
          (as = [] \<or> (last as = tail s \<and> s_next (hdrs s (tail s)) = NULL)))"

text \<open>
  A handle the caller may pass: the payload address of a header of the list. A size
  the break can grow by: header and payload together are a positive \<^verbatim>\<open>intptr_t\<close>.
  \<open>valid_ops s ops\<close>: each call of \<open>ops\<close>, made in turn from \<open>s\<close>, passes such handles and
  sizes (\<^verbatim>\<open>calloc\<close> passes its product on only when it does not overflow).
\<close>

definition valid_handle :: "state \<Rightarrow> addr \<Rightarrow> bool" where
  "valid_handle s block =
     (case block_list s of None \<Rightarrow> False | Some as \<Rightarrow> block - sizeof_header_t \<in> set as)"

definition size_ok :: "64 word \<Rightarrow> bool" where
  "size_ok sz = (unat sizeof_header_t + unat sz < 2 ^ 63)"

fun valid_op :: "state \<Rightarrow> op \<Rightarrow> bool" where
  "valid_op s (Malloc sz) = size_ok sz"
| "valid_op s (Calloc num nsize) =
     (2 ^ 64 \<le> unat num * unat nsize \<or> unat sizeof_header_t + unat num * unat nsize < 2 ^ 63)"
| "valid_op s (Realloc block sz) = ((block = NULL \<or> valid_handle s block) \<and> size_ok sz)"
| "valid_op s (Free block) = (block = NULL \<or> valid_handle s block)"

fun valid_ops :: "state \<Rightarrow> op list \<Rightarrow> bool" where
  "valid_ops s [] = True"
| "valid_ops s (x # xs) =
     (valid_op s x \<and> (case exec_op s x of None \<Rightarrow> True | Some s' \<Rightarrow> valid_ops s' xs))"

subsection \<open>The states that the calls leave\<close>

text \<open>
  The state after \<^verbatim>\<open>malloc\<close> has moved the break by header and payload, written the new
  header at the old break and linked it after \<^verbatim>\<open>tail\<close>.
\<close>

definition appended :: "state \<Rightarrow> 64 word \<Rightarrow> state" where
  "appended s sz =
     (let b = brk s;
          h1 = (hdrs s)(b := (hdrs s b)\<lparr>s_size := sz, s_is_free := 0, s_next := NULL\<rparr>)
      in s\<lparr>head := (if head s = NULL then b else head s),
           tail := b,
           hdrs := (if tail s = NULL then h1 else h1(tail s := (h1 (tail s))\<lparr>s_next := b\<rparr>)),
           brk := b + (sizeof_header_t + sz)\<rparr>)"

text \<open>The state after \<^verbatim>\<open>free\<close> has set the flag of the header \<open>a\<close>.\<close>

definition marked_free :: "state \<Rightarrow> addr \<Rightarrow> state" where
  "marked_free s a = s\<lparr>hdrs := (hdrs s)(a := (hdrs s a)\<lparr>s_is_free := 1\<rparr>)\<rparr>"

subsection \<open>Example states\<close>

text \<open>
  A fresh process with the break at 4096 and payload bytes that are not 0 (\<open>ex_init\<close>);
  after \<^verbatim>\<open>malloc(20)\<close>, with no room left for a second block (\<open>ex_low\<close>); after \<^verbatim>\<open>malloc(20)\<close>
  and \<^verbatim>\<open>malloc(12)\<close>: blocks of 20 bytes at 4096 and of 12 bytes at 4140, both in use
  (\<open>ex_two\<close>); and the state of the specification's scenario after \<^verbatim>\<open>allocate(20)\<close>,
  \<^verbatim>\<open>zeroAllocate(3, 4)\<close> and the release of the first block: the same two blocks, the first
  one free (\<open>ex_reuse\<close>).
\<close>

definition ex_init :: state where
  "ex_init =
     \<lparr>head = NULL, tail = NULL,
      hdrs = (\<lambda>_. \<lparr>s_size = 0, s_is_free = 0, s_next = NULL\<rparr>),
      mem = (\<lambda>_. 170), brk = 4096, brk_max = 65536\<rparr>"

definition ex_reuse :: state where
  "ex_reuse = marked_free (memset (appended (appended ex_init 20) 12) 4164 0 12) 4096"

definition ex_low :: state where
  "ex_low = (appended ex_init 20)\<lparr>brk_max := 4150\<rparr>"

definition ex_two :: state where
  "ex_two = appended (appended ex_init 20) 12"

section \<open>Properties\<close>

subsection \<open>Words\<close>

lemma unat_sizeof_header_t: "unat sizeof_header_t = 24"
  by (simp add: sizeof_header_t_def)

lemma sint_nonneg_iff: "(0 \<le> sint (w::64 word)) = (unat w < 2 ^ 63)"
proof -
  have "(0 \<le> sint w) = (\<not> bit (uint w) 63)"
    by (simp add: sint_uint signed_take_bit_nonnegative_iff)
  also have "\<dots> = (uint w < 2 ^ 63)"
  proof (cases "uint w < 2 ^ 63")
    case True
    then have "uint w div 2 ^ 63 = 0" by (simp add: div_pos_pos_trivial)
    with True show ?thesis by (simp add: bit_iff_odd)
  next
    case False
    have "uint w < 2 ^ 64" using uint_lt2p [of w] by simp
    with False have "uint w div 2 ^ 63 = 1" by simp
    with False show ?thesis by (simp add: bit_iff_odd)
  qed
  also have "\<dots> = (unat w < 2 ^ 63)"
    by (simp add: unat_eq_nat_uint nat_less_iff del: nat_uint_eq)
  finally show ?thesis .
qed

lemma unat_neg:
  "x \<noteq> 0 \<Longrightarrow> unat (- x :: 64 word) = 2 ^ 64 - unat x"
  using unat_sub_if_size [of 0 x] by (auto simp: word_size unat_gt_0 word_le_nat_alt)

lemma size_okD:
  assumes "size_ok sz"
  shows "unat (sizeof_header_t + sz) = 24 + unat sz" "0 \<le> sint (sizeof_header_t + sz)"
    "sizeof_header_t + sz \<noteq> 0"
proof -
  from assms have 1: "unat sizeof_header_t + unat sz < 2 ^ 63"
    by (simp add: size_ok_def)
  then have "unat sizeof_header_t + unat sz < 2 ^ LENGTH(64)" by simp
  then have "unat (sizeof_header_t + sz) = unat sizeof_header_t + unat sz"
    by (simp only: unat_add_lem)
  then show 2: "unat (sizeof_header_t + sz) = 24 + unat sz"
    by (simp add: unat_sizeof_header_t)
  with 1 show "0 \<le> sint (sizeof_header_t + sz)"
    by (simp add: sint_nonneg_iff unat_sizeof_header_t)
  from 2 show "sizeof_header_t + sz \<noteq> 0" by (auto simp: unat_eq_0 [symmetric] simp del: unat_eq_0)
qed

lemma block_words:
  assumes e: "block_end h a \<le> unat b" and b: "unat b < 2 ^ 63"
  shows "a + sizeof_header_t \<noteq> 0"
    "unat (a + sizeof_header_t + s_size (h a)) = block_end h a"
proof -
  from e have e': "unat a + 24 + unat (s_size (h a)) \<le> unat b"
    by (simp add: block_end_def unat_sizeof_header_t)
  with b have "unat a + unat sizeof_header_t < 2 ^ LENGTH(64)"
    by (simp add: unat_sizeof_header_t)
  then have 1: "unat (a + sizeof_header_t) = unat a + 24"
    by (simp only: unat_add_lem) (simp add: unat_sizeof_header_t)
  then show "a + sizeof_header_t \<noteq> 0"
    by (auto simp: unat_eq_0 [symmetric] simp del: unat_eq_0)
  from 1 e' b have "unat (a + sizeof_header_t) + unat (s_size (h a)) < 2 ^ LENGTH(64)"
    by simp
  then have "unat (a + sizeof_header_t + s_size (h a)) = unat a + 24 + unat (s_size (h a))"
    by (simp only: unat_add_lem) (simp add: 1)
  then show "unat (a + sizeof_header_t + s_size (h a)) = block_end h a"
    by (simp add: block_end_def unat_sizeof_header_t)
qed

text \<open>The block at the break: its payload address, and the release of its bytes.\<close>

lemma last_block_words:
  assumes e: "block_end h t = unat b" and b: "unat b < 2 ^ 63"
  shows "t + sizeof_header_t \<noteq> 0" "t + sizeof_header_t - sizeof_header_t = t"
    "t + sizeof_header_t + s_size (h t) = b"
    "0 - s_size (h t) - sizeof_header_t \<noteq> 0"
    "\<not> 0 \<le> sint (0 - s_size (h t) - sizeof_header_t)"
    "unat (- (0 - s_size (h t) - sizeof_header_t)) \<le> unat b"
    "b + (0 - s_size (h t) - sizeof_header_t) = t"
proof -
  from e have e': "unat t + 24 + unat (s_size (h t)) = unat b"
    by (simp add: block_end_def unat_sizeof_header_t)
  with b have "unat t + unat sizeof_header_t < 2 ^ LENGTH(64)"
    by (simp add: unat_sizeof_header_t)
  then have 1: "unat (t + sizeof_header_t) = unat t + 24"
    by (simp only: unat_add_lem) (simp add: unat_sizeof_header_t)
  then show "t + sizeof_header_t \<noteq> 0"
    by (auto simp: unat_eq_0 [symmetric] simp del: unat_eq_0)
  show "t + sizeof_header_t - sizeof_header_t = t" by simp
  from 1 e' b have "unat (t + sizeof_header_t) + unat (s_size (h t)) < 2 ^ LENGTH(64)"
    by simp
  then have "unat (t + sizeof_header_t + s_size (h t)) = unat t + 24 + unat (s_size (h t))"
    by (simp only: unat_add_lem) (simp add: 1)
  with e' show 2: "t + sizeof_header_t + s_size (h t) = b"
    by (simp add: word_unat_eq_iff)
  let ?x = "s_size (h t) + sizeof_header_t"
  have x: "0 - s_size (h t) - sizeof_header_t = - ?x" by simp
  from e' b have "unat (s_size (h t)) + unat sizeof_header_t < 2 ^ LENGTH(64)"
    by (simp add: unat_sizeof_header_t)
  then have ux: "unat ?x = unat (s_size (h t)) + 24"
    by (simp only: unat_add_lem) (simp add: unat_sizeof_header_t)
  then have x0: "?x \<noteq> 0" by (auto simp: unat_eq_0 [symmetric] simp del: unat_eq_0)
  then have "- ?x \<noteq> 0" by (simp only: neg_equal_0_iff_equal not_False_eq_True)
  then show "0 - s_size (h t) - sizeof_header_t \<noteq> 0" unfolding x .
  from ux e' b have "(2::nat) ^ 63 \<le> 2 ^ 64 - unat ?x" by simp
  then have "2 ^ 63 \<le> unat (- ?x)" by (simp only: unat_neg [OF x0])
  then have "\<not> unat (- ?x) < 2 ^ 63" by (simp only: not_less)
  then have "\<not> 0 \<le> sint (- ?x)" unfolding sint_nonneg_iff .
  then show "\<not> 0 \<le> sint (0 - s_size (h t) - sizeof_header_t)" unfolding x .
  from ux e' have "unat ?x \<le> unat b" by simp
  then have "unat (- (- ?x)) \<le> unat b" by (simp only: minus_minus)
  then show "unat (- (0 - s_size (h t) - sizeof_header_t)) \<le> unat b" unfolding x .
  have "b + (- ?x) = t" unfolding 2 [symmetric] by (simp add: algebra_simps)
  then show "b + (0 - s_size (h t) - sizeof_header_t) = t" unfolding x .
qed

text \<open>The overflow test of \<^verbatim>\<open>calloc\<close> is exact.\<close>

lemma calloc_check_iff:
  fixes num nsize :: "64 word"
  assumes "num \<noteq> 0"
  shows "(nsize = (num * nsize) div num) = (unat num * unat nsize < 2 ^ 64)"
proof -
  from assms have n: "0 < unat num" by (simp add: unat_gt_0)
  have m: "unat (num * nsize) = (unat num * unat nsize) mod 2 ^ 64"
    by (simp add: unat_word_ariths)
  have d: "unat ((num * nsize) div num) = unat (num * nsize) div unat num"
    by (simp add: unat_div)
  show ?thesis
  proof
    assume "nsize = (num * nsize) div num"
    then have "unat nsize = unat (num * nsize) div unat num" using d by simp
    then have "unat nsize * unat num \<le> unat (num * nsize)" by simp
    moreover have "unat (num * nsize) < 2 ^ 64" using unsigned_less [of "num * nsize"] by simp
    ultimately show "unat num * unat nsize < 2 ^ 64" by (simp add: mult.commute)
  next
    assume "unat num * unat nsize < 2 ^ 64"
    with m have "unat (num * nsize) = unat num * unat nsize" by simp
    with d n have "unat ((num * nsize) div num) = unat nsize" by simp
    then show "nsize = (num * nsize) div num" by (simp only: word_unat_eq_iff)
  qed
qed

subsection \<open>The C library\<close>

lemma sbrk_zero: "sbrk s 0 = (brk s, s)"
  by (simp add: sbrk_def sbrk_ok_def)

lemma sbrk_ok_grow:
  "size_ok sz \<Longrightarrow>
   sbrk_ok s (sizeof_header_t + sz) = (unat (brk s) + 24 + unat sz \<le> unat (brk_max s))"
  by (simp add: sbrk_ok_def size_okD add.assoc)

lemma sbrk_release:
  assumes "block_end (hdrs s) t = unat (brk s)" "unat (brk s) < 2 ^ 63"
  shows "sbrk s (0 - s_size (hdrs s t) - sizeof_header_t) = (brk s, s\<lparr>brk := t\<rparr>)"
  using last_block_words(4-7) [OF assms] by (simp add: sbrk_def sbrk_ok_def)

lemma sbrk_mem: "mem (snd (sbrk s i)) = mem s"
  by (simp add: sbrk_def)

lemma memset_hdrs: "wf_list (memset s block c n) as = wf_list s as"
  by (simp add: memset_def wf_list_def)

lemma memcpy_hdrs: "wf_list (memcpy s dst src n) as = wf_list s as"
  by (simp add: memcpy_def wf_list_def)

lemma memcpy_fields:
  "hdrs (memcpy s dst src n) = hdrs s" "head (memcpy s dst src n) = head s"
  "tail (memcpy s dst src n) = tail s" "brk (memcpy s dst src n) = brk s"
  "i < unat n \<Longrightarrow> mem (memcpy s dst src n) (dst + of_nat i) = mem s (src + of_nat i)"
proof -
  show "hdrs (memcpy s dst src n) = hdrs s" "head (memcpy s dst src n) = head s"
    "tail (memcpy s dst src n) = tail s" "brk (memcpy s dst src n) = brk s"
    by (simp_all add: memcpy_def)
  assume i: "i < unat n"
  have "unat n < 2 ^ 64" using unsigned_less [of n] by simp
  with i have "unat (of_nat i :: 64 word) = i" by (simp add: unat_of_nat)
  with i have "(of_nat i :: 64 word) < n" by (simp add: word_less_nat_alt)
  then show "mem (memcpy s dst src n) (dst + of_nat i) = mem s (src + of_nat i)"
    by (simp add: memcpy_def)
qed

subsection \<open>Lists in the heap\<close>

lemma path_unique: "path h p as \<Longrightarrow> path h p bs \<Longrightarrow> as = bs"
proof (induction as arbitrary: p bs)
  case Nil
  then show ?case by (cases bs) auto
next
  case (Cons a as)
  then show ?case by (cases bs) auto
qed

lemma path_not_null: "path h p as \<Longrightarrow> NULL \<notin> set as"
  by (induction as arbitrary: p) auto

lemma path_null_iff: "path h p as \<Longrightarrow> (p = NULL) = (as = [])"
  by (cases as) auto

lemma path_last_next: "path h p as \<Longrightarrow> as \<noteq> [] \<Longrightarrow> s_next (h (last as)) = NULL"
  by (induction as arbitrary: p) (auto split: if_splits)

lemma path_cong:
  "(\<And>a. a \<in> set as \<Longrightarrow> s_next (h' a) = s_next (h a)) \<Longrightarrow> path h' p as = path h p as"
  by (induction as arbitrary: p) auto

lemma path_snoc_upd:
  "path h p as \<Longrightarrow> as \<noteq> [] \<Longrightarrow> distinct as \<Longrightarrow> b \<notin> set as \<Longrightarrow> b \<noteq> NULL \<Longrightarrow>
   s_next (h b) = NULL \<Longrightarrow>
   path (h(last as := (h (last as))\<lparr>s_next := b\<rparr>)) p (as @ [b])"
proof (induction as arbitrary: p)
  case Nil
  then show ?case by simp
next
  case (Cons a as)
  note IH = Cons.IH and prems = Cons.prems
  show ?case
  proof (cases "as = []")
    case True
    with prems show ?thesis by auto
  next
    case False
    with prems have 1: "last (a # as) = last as" and 2: "last as \<noteq> a"
      using last_in_set [of as] by auto
    from prems have 3: "p = a" "a \<noteq> NULL" "path h (s_next (h a)) as" by auto
    from prems have "distinct as" "b \<notin> set as" by auto
    from IH [OF 3(3) False this prems(5,6)]
    have "path (h(last as := (h (last as))\<lparr>s_next := b\<rparr>)) (s_next (h a)) (as @ [b])" .
    moreover from 2 have "a \<noteq> last as" by simp
    ultimately show ?thesis unfolding 1 using 3 by (simp add: fun_upd_def)
  qed
qed

lemma path_butlast_upd:
  "path h p (bs @ [q, t]) \<Longrightarrow> distinct (bs @ [q, t]) \<Longrightarrow>
   path (h(q := (h q)\<lparr>s_next := NULL\<rparr>)) p (bs @ [q])"
  by (induction bs arbitrary: p) auto

lemma traverse_path: "path h p as \<Longrightarrow> traverse h p = Some as"
proof (induction as arbitrary: p)
  case Nil
  then show ?case by (simp add: traverse.simps)
next
  case (Cons a as)
  then have "traverse h (s_next (h a)) = Some as" by simp
  with Cons.prems show ?case by (subst traverse.simps) simp
qed

lemma traverse_Some_path:
  assumes "traverse h p = Some as"
  shows "path h p as"
proof (rule traverse.raw_induct [where P = path, OF _ assms])
  fix trav h cur as
  assume IH: "\<And>cur b y. trav cur b = Some y \<Longrightarrow> path cur b y"
    and eq: "(if cur = NULL then Some []
              else Option.bind (trav h (s_next (h cur))) (\<lambda>as. Some (cur # as))) = Some as"
  show "path h cur as"
  proof (cases "cur = NULL")
    case True
    with eq show ?thesis by simp
  next
    case False
    with eq obtain bs where "trav h (s_next (h cur)) = Some bs" "as = cur # bs"
      by (auto simp: bind_eq_Some_conv)
    with IH False show ?thesis by simp
  qed
qed

lemma traverse_cong:
  assumes "\<And>a. s_next (h' a) = s_next (h a)"
  shows "traverse h' p = traverse h p"
proof -
  have 1: "traverse h2 p = Some as" if "traverse h1 p = Some as"
    and "\<And>a. s_next (h2 a) = s_next (h1 a)" for h1 h2 as
  proof -
    from that(1) have "path h1 p as" by (rule traverse_Some_path)
    then have "path h2 p as" using that(2) by (simp add: path_cong [of as h2 h1])
    then show ?thesis by (rule traverse_path)
  qed
  show ?thesis
  proof (cases "traverse h p")
    case None
    show ?thesis
    proof (cases "traverse h' p")
      case (Some as)
      from 1 [OF Some] assms have "traverse h p = Some as" by simp
      with None show ?thesis by simp
    qed (simp add: None)
  next
    case (Some as)
    from 1 [OF Some, of h'] assms Some show ?thesis by simp
  qed
qed

lemma contig_cong:
  "(\<And>a. a \<in> set as \<Longrightarrow> s_size (h' a) = s_size (h a)) \<Longrightarrow> contig h' as e = contig h as e"
  by (induction as) (auto simp: block_end_def)

lemma contig_snoc:
  "contig h (as @ [b]) e = (contig h as b \<and> block_end h b = unat e)"
  by (induction as) (auto split: list.splits)

lemma contig_end_le: "contig h as e \<Longrightarrow> a \<in> set as \<Longrightarrow> block_end h a \<le> unat e"
proof (induction as arbitrary: a)
  case Nil
  then show ?case by simp
next
  case (Cons b bs)
  note IH = Cons.IH and prems = Cons.prems
  show ?case
  proof (cases bs)
    case Nil
    with prems show ?thesis by simp
  next
    case (Cons c cs)
    from prems Cons have 1: "block_end h b = unat c" and 2: "contig h bs e" by simp_all
    from IH [OF 2, of c] Cons have 3: "block_end h c \<le> unat e" by simp
    have 4: "unat c \<le> block_end h c" by (simp add: block_end_def)
    show ?thesis
    proof (cases "a = b")
      case True
      with 1 3 4 show ?thesis by simp
    next
      case False
      with prems have "a \<in> set bs" by simp
      with IH 2 show ?thesis by simp
    qed
  qed
qed

lemma contig_lt: "contig h as e \<Longrightarrow> a \<in> set as \<Longrightarrow> unat a < unat e"
  using contig_end_le [of h as e a] by (simp add: block_end_def unat_sizeof_header_t)

lemma contig_sorted: "contig h as e \<Longrightarrow> sorted_wrt (<) as"
proof (induction as)
  case Nil
  then show ?case by simp
next
  case (Cons b bs)
  note IH = Cons.IH and prems = Cons.prems
  from prems have 2: "contig h bs e" by simp
  have "b < c" if c: "c \<in> set bs" for c
  proof (cases bs)
    case Nil
    with c show ?thesis by simp
  next
    case (Cons d ds)
    with prems have 1: "block_end h b = unat d" by simp
    then have bd: "b < d" by (simp add: block_end_def unat_sizeof_header_t word_less_nat_alt)
    show ?thesis
    proof (cases "c = d")
      case True
      with bd show ?thesis by simp
    next
      case False
      with c Cons have "c \<in> set ds" by simp
      moreover from IH [OF 2] Cons have "sorted_wrt (<) (d # ds)" by simp
      ultimately have "d < c" by simp
      with bd show ?thesis by simp
    qed
  qed
  with IH [OF 2] show ?case by simp
qed

lemma contig_end_last:
  "contig h as e \<Longrightarrow> a \<in> set as \<Longrightarrow> block_end h a = unat e \<Longrightarrow> a = last as"
proof (induction as)
  case Nil
  then show ?case by simp
next
  case (Cons b bs)
  note IH = Cons.IH and prems = Cons.prems
  show ?case
  proof (cases bs)
    case Nil
    with prems show ?thesis by simp
  next
    case (Cons c cs)
    with prems have 1: "block_end h b = unat c" and 2: "contig h bs e" by auto
    from 2 Cons have "block_end h c \<le> unat e" using contig_end_le [of h bs e c] by simp
    with 1 have "block_end h b < unat e" by (simp add: block_end_def unat_sizeof_header_t)
    with prems have "a \<in> set bs" by auto
    with IH 2 prems Cons show ?thesis by simp
  qed
qed

subsection \<open>Well-formed states\<close>

lemma wf_listD:
  assumes "wf_list s as"
  shows "path (hdrs s) (head s) as" "tail s = (if as = [] then NULL else last as)"
    "contig (hdrs s) as (brk s)" "brk s \<noteq> 0" "brk s \<le> brk_max s"
    "unat (brk_max s) < 2 ^ 63" "unat (brk s) < 2 ^ 63" "unat (brk s) \<le> unat (brk_max s)"
    "distinct as" "NULL \<notin> set as"
proof -
  from assms show 1: "path (hdrs s) (head s) as" "tail s = (if as = [] then NULL else last as)"
    "contig (hdrs s) as (brk s)" "brk s \<noteq> 0" "brk s \<le> brk_max s"
    "unat (brk_max s) < 2 ^ 63"
    by (simp_all add: wf_list_def)
  from 1(5) show 2: "unat (brk s) \<le> unat (brk_max s)" by (simp add: word_le_nat_alt)
  with 1(6) show "unat (brk s) < 2 ^ 63" by simp
  from contig_sorted [OF 1(3)] show "distinct as"
    by (simp add: strict_sorted_iff)
  from path_not_null [OF 1(1)] show "NULL \<notin> set as" .
qed

lemma wf_list_mem:
  assumes "wf_list s as" "a \<in> set as"
  shows "block_end (hdrs s) a \<le> unat (brk s)" "unat a < unat (brk s)" "a \<noteq> NULL" "a \<noteq> brk s"
proof -
  from assms show "block_end (hdrs s) a \<le> unat (brk s)"
    using contig_end_le wf_listD(3) by blast
  from assms show 1: "unat a < unat (brk s)"
    using contig_lt wf_listD(3) by blast
  from assms wf_listD(10) show "a \<noteq> NULL" by blast
  from 1 show "a \<noteq> brk s" by auto
qed

lemma wf_flag:
  assumes "wf_list s as"
  shows "wf_list (s\<lparr>hdrs := (hdrs s)(a := (hdrs s a)\<lparr>s_is_free := v\<rparr>)\<rparr>) as"
proof -
  let ?h = "(hdrs s)(a := (hdrs s a)\<lparr>s_is_free := v\<rparr>)"
  have "path ?h (head s) as = path (hdrs s) (head s) as"
    by (rule path_cong) simp
  moreover have "contig ?h as (brk s) = contig (hdrs s) as (brk s)"
    by (rule contig_cong) simp
  ultimately show ?thesis using assms by (simp add: wf_list_def)
qed

lemma block_list_wf: "wf_list s as \<Longrightarrow> block_list s = Some as"
  by (simp add: block_list_def traverse_path wf_listD(1))

lemma valid_handle_wf:
  "wf_list s as \<Longrightarrow> valid_handle s block = (block - sizeof_header_t \<in> set as)"
  by (simp add: valid_handle_def block_list_wf)

lemma block_list_marked_free: "block_list (marked_free s a) = block_list s"
  unfolding block_list_def marked_free_def
  by (simp, rule traverse_cong) simp

lemma wf_block_list_inv:
  assumes wf: "wf_list s as"
  shows "block_list_inv s"
proof -
  note D = wf_listD [OF wf]
  have 1: "(head s = NULL) = (as = [])" using D(1) by (rule path_null_iff)
  have 2: "(tail s = NULL) = (as = [])" using D(2,10) by (metis last_in_set)
  have 3: "sorted_wrt (<) as" using D(3) by (rule contig_sorted)
  have 4: "as = [] \<or> (last as = tail s \<and> s_next (hdrs s (tail s)) = NULL)"
    using D(2) path_last_next [OF D(1)] by auto
  from 1 2 3 4 D(9) show ?thesis
    by (simp add: block_list_inv_def block_list_wf [OF wf])
qed

lemma at_break_iff:
  assumes wf: "wf_list s as" and a: "a \<in> set as"
  shows "(a + sizeof_header_t + s_size (hdrs s a) = brk s) = (a = last as)"
proof -
  note D = wf_listD [OF wf]
  note M = wf_list_mem [OF wf a]
  have u: "unat (a + sizeof_header_t + s_size (hdrs s a)) = block_end (hdrs s) a"
    using M(1) D(7) by (rule block_words(2))
  show ?thesis
  proof
    assume "a + sizeof_header_t + s_size (hdrs s a) = brk s"
    with u have "block_end (hdrs s) a = unat (brk s)" by simp
    with D(3) a show "a = last as" by (rule contig_end_last)
  next
    assume l: "a = last as"
    from a have "as = butlast as @ [last as]" by (cases as) auto
    with D(3) have "contig (hdrs s) (butlast as @ [last as]) (brk s)" by simp
    then have "block_end (hdrs s) (last as) = unat (brk s)" by (simp only: contig_snoc)
    with u l have "unat (a + sizeof_header_t + s_size (hdrs s a)) = unat (brk s)"
      by simp
    then show "a + sizeof_header_t + s_size (hdrs s a) = brk s"
      by (simp only: word_unat_eq_iff)
  qed
qed

subsection \<open>get_free_block and malloc\<close>

lemma scan_path:
  "path h p as \<Longrightarrow>
   get_free_block_loop h sz p = Some (case find (fits h sz) as of None \<Rightarrow> NULL | Some a \<Rightarrow> a)"
proof (induction as arbitrary: p)
  case Nil
  then show ?case by (simp add: get_free_block_loop.simps)
next
  case (Cons a as)
  then have "get_free_block_loop h sz (s_next (h a)) =
      Some (case find (fits h sz) as of None \<Rightarrow> NULL | Some a \<Rightarrow> a)" by simp
  with Cons.prems show ?case
    by (subst get_free_block_loop.simps) (simp add: fits_def)
qed

lemma get_free_block_path:
  "path (hdrs s) (head s) as \<Longrightarrow>
   get_free_block s sz =
     Some (case find (fits (hdrs s) sz) as of None \<Rightarrow> NULL | Some a \<Rightarrow> a)"
  by (simp add: get_free_block_def scan_path)

lemma find_in_path:
  "path h p as \<Longrightarrow> find P as = Some a \<Longrightarrow> a \<in> set as \<and> a \<noteq> NULL \<and> P a"
proof -
  assume p: "path h p as" and f: "find P as = Some a"
  from f have "a \<in> set as \<and> P a"
    by (induction as) (auto split: if_splits)
  with path_not_null [OF p] show ?thesis by auto
qed

lemma malloc_reuse:
  assumes "path (hdrs s) (head s) as" "sz \<noteq> 0" "find (fits (hdrs s) sz) as = Some a"
  shows "malloc s sz = Some (NULL, s\<lparr>hdrs := (hdrs s)(a := (hdrs s a)\<lparr>s_is_free := 0\<rparr>)\<rparr>)"
proof -
  from assms have "a \<noteq> NULL" using find_in_path by blast
  with assms show ?thesis by (simp add: malloc_def get_free_block_path)
qed

lemma malloc_oom:
  assumes "path (hdrs s) (head s) as" "sz \<noteq> 0" "find (fits (hdrs s) sz) as = None"
    "\<not> sbrk_ok s (sizeof_header_t + sz)"
  shows "malloc s sz = Some (NULL, s)"
  using assms by (simp add: malloc_def get_free_block_path sbrk_def)

lemma malloc_grow:
  assumes "path (hdrs s) (head s) as" "sz \<noteq> 0" "find (fits (hdrs s) sz) as = None"
    "sbrk_ok s (sizeof_header_t + sz)" "brk s \<noteq> - 1"
  shows "malloc s sz = Some (brk s + sizeof_header_t, appended s sz)"
  using assms by (simp add: malloc_def get_free_block_path sbrk_def appended_def Let_def)

lemma appended_fields:
  "mem (appended s sz) = mem s" "tail (appended s sz) = brk s"
  "brk (appended s sz) = brk s + (sizeof_header_t + sz)"
  "head (appended s sz) = (if head s = NULL then brk s else head s)"
  "brk_max (appended s sz) = brk_max s"
  by (simp_all add: appended_def Let_def)

lemma appended_hdrs_old:
  "a \<noteq> brk s \<Longrightarrow> s_size (hdrs (appended s sz) a) = s_size (hdrs s a)"
  "a \<noteq> brk s \<Longrightarrow> s_is_free (hdrs (appended s sz) a) = s_is_free (hdrs s a)"
  "a \<noteq> brk s \<Longrightarrow> a \<noteq> tail s \<Longrightarrow> hdrs (appended s sz) a = hdrs s a"
  by (simp_all add: appended_def Let_def)

lemma appended_path:
  assumes wf: "wf_list s as"
  shows "path (hdrs (appended s sz)) (head (appended s sz)) (as @ [brk s])"
    and "distinct (as @ [brk s])"
proof -
  let ?b = "brk s"
  let ?h1 = "(hdrs s)(?b := (hdrs s ?b)\<lparr>s_size := sz, s_is_free := 0, s_next := NULL\<rparr>)"
  note D = wf_listD [OF wf]
  have notin: "?b \<notin> set as" using wf_list_mem(4) [OF wf] by blast
  with D(9) show "distinct (as @ [brk s])" by simp
  have p1: "path ?h1 (head s) as"
    using notin D(1) by (subst path_cong [of as _ "hdrs s"]) auto
  show "path (hdrs (appended s sz)) (head (appended s sz)) (as @ [brk s])"
  proof (cases "as = []")
    case True
    with D(1,2) have "head s = NULL" "tail s = NULL" by simp_all
    with True D(4) show ?thesis by (simp add: appended_def Let_def)
  next
    case False
    with D(10) have "last as \<noteq> NULL" by (metis last_in_set)
    with False D(2) have "tail s = last as" "tail s \<noteq> NULL" by auto
    with False have ht: "head s \<noteq> NULL" "tail s = last as" "tail s \<noteq> NULL"
      using path_null_iff [OF D(1)] by auto
    have "path (?h1(last as := (?h1 (last as))\<lparr>s_next := ?b\<rparr>)) (head s) (as @ [?b])"
      using p1 False D(9) notin D(4) by (intro path_snoc_upd) simp_all
    with ht show ?thesis by (simp add: appended_def Let_def)
  qed
qed

lemma wf_appended:
  assumes wf: "wf_list s as" and sz: "size_ok sz" and ok: "sbrk_ok s (sizeof_header_t + sz)"
  shows "wf_list (appended s sz) (as @ [brk s])"
proof -
  let ?b = "brk s"
  let ?h1 = "(hdrs s)(?b := (hdrs s ?b)\<lparr>s_size := sz, s_is_free := 0, s_next := NULL\<rparr>)"
  note D = wf_listD [OF wf]
  from ok sz have le: "unat ?b + 24 + unat sz \<le> unat (brk_max s)"
    by (simp add: sbrk_ok_grow)
  with D(6) have "unat ?b + unat (sizeof_header_t + sz) < 2 ^ LENGTH(64)"
    by (simp add: size_okD [OF sz])
  then have "unat (?b + (sizeof_header_t + sz)) = unat ?b + unat (sizeof_header_t + sz)"
    by (simp only: unat_add_lem)
  then have new: "unat (?b + (sizeof_header_t + sz)) = unat ?b + 24 + unat sz"
    by (simp add: size_okD [OF sz])
  have notin: "?b \<notin> set as" using wf_list_mem(4) [OF wf] by blast
  have p1: "path ?h1 (head s) as"
    using notin D(1) by (subst path_cong [of as _ "hdrs s"]) auto
  have c1: "contig ?h1 as ?b"
    using notin D(3) by (subst contig_cong [of as _ "hdrs s"]) auto
  have e1: "block_end ?h1 ?b = unat (?b + (sizeof_header_t + sz))"
    by (simp add: block_end_def new unat_sizeof_header_t)
  have b1: "?b + (sizeof_header_t + sz) \<noteq> 0"
    using new D(4) by (auto simp: unat_eq_0 [symmetric] simp del: unat_eq_0)
  have b2: "?b + (sizeof_header_t + sz) \<le> brk_max s"
    using new le by (simp add: word_le_nat_alt)
  show ?thesis
  proof (cases "as = []")
    case True
    with D(1,2) have "head s = NULL" "tail s = NULL" by simp_all
    with True D(4,6) e1 b1 b2 show ?thesis
      by (simp add: wf_list_def appended_def Let_def)
  next
    case False
    with D(10) have "last as \<noteq> NULL" by (metis last_in_set)
    with False D(2) have "tail s = last as" "tail s \<noteq> NULL" by auto
    with False have ht: "head s \<noteq> NULL" "tail s = last as" "tail s \<noteq> NULL"
      using path_null_iff [OF D(1)] by auto
    let ?h2 = "?h1(last as := (?h1 (last as))\<lparr>s_next := ?b\<rparr>)"
    have p2: "path ?h2 (head s) (as @ [?b])"
      using p1 False D(9) notin D(4) by (intro path_snoc_upd) simp_all
    have "contig ?h2 as ?b"
      using c1 by (subst contig_cong [of as _ ?h1]) auto
    moreover have "block_end ?h2 ?b = unat (?b + (sizeof_header_t + sz))"
      using e1 notin False last_in_set [of as] by (auto simp: block_end_def)
    ultimately have c2: "contig ?h2 (as @ [?b]) (?b + (sizeof_header_t + sz))"
      by (simp only: contig_snoc)
    from ht p2 c2 b1 b2 D(6) show ?thesis
      by (simp add: wf_list_def appended_def Let_def)
  qed
qed

lemma malloc_wf:
  assumes wf: "wf_list s as" and sz: "size_ok sz"
  shows "\<exists>r s' as'. malloc s sz = Some (r, s') \<and> wf_list s' as' \<and> set as \<subseteq> set as'"
proof (cases "sz = 0")
  case True
  with wf show ?thesis by (auto simp: malloc_def)
next
  case nz: False
  note D = wf_listD [OF wf]
  show ?thesis
  proof (cases "find (fits (hdrs s) sz) as")
    case (Some a)
    from malloc_reuse [OF D(1) nz Some] wf_flag [OF wf] show ?thesis by blast
  next
    case None
    show ?thesis
    proof (cases "sbrk_ok s (sizeof_header_t + sz)")
      case True
      have "unat (- 1 :: 64 word) = 2 ^ 64 - 1"
        by (simp add: unsigned_minus_1_eq_mask mask_eq_exp_minus_1)
      with D(7) have "brk s \<noteq> - 1" by auto
      from malloc_grow [OF D(1) nz None True this] wf_appended [OF wf sz True]
      show ?thesis by fastforce
    next
      case False
      from malloc_oom [OF D(1) nz None False] wf show ?thesis by blast
    qed
  qed
qed

subsection \<open>free\<close>

lemma free_loop_path:
  "path (hdrs s) cur (cs @ [q, t]) \<Longrightarrow> distinct (cs @ [q, t]) \<Longrightarrow> tail s = t \<Longrightarrow>
   free_loop s cur =
     Some (s\<lparr>hdrs := (hdrs s)(q := (hdrs s q)\<lparr>s_next := NULL\<rparr>), tail := q\<rparr>)"
proof (induction cs arbitrary: cur)
  case Nil
  then have 1: "cur = q" "q \<noteq> NULL" "s_next (hdrs s q) = t" by auto
  show ?case
    apply (subst free_loop.simps)
    apply (simp add: 1 Nil.prems Let_def)
    apply (subst free_loop.simps)
    apply simp
    done
next
  case (Cons c cs)
  then have 1: "cur = c" "c \<noteq> NULL" "path (hdrs s) (s_next (hdrs s c)) (cs @ [q, t])" by auto
  then have "s_next (hdrs s c) = hd (cs @ [q, t])" by (cases cs) auto
  moreover have "hd (cs @ [q, t]) \<in> set (cs @ [q])" by (cases cs) auto
  ultimately have 2: "s_next (hdrs s c) \<noteq> t" using Cons.prems(2) by auto
  have 3: "free_loop s (s_next (hdrs s c)) =
     Some (s\<lparr>hdrs := (hdrs s)(q := (hdrs s q)\<lparr>s_next := NULL\<rparr>), tail := q\<rparr>)"
    by (rule Cons.IH [OF 1(3)]) (use Cons.prems in auto)
  have "free_loop s cur = free_loop s (s_next (hdrs s c))"
    by (subst free_loop.simps) (simp add: 1 2 Cons.prems(3) Let_def)
  also note 3
  finally show ?case .
qed

lemma free_mark:
  assumes "block \<noteq> NULL" "block + s_size (hdrs s (block - sizeof_header_t)) \<noteq> brk s"
  shows "free s block =
    Some (s\<lparr>hdrs := (hdrs s)(block - sizeof_header_t :=
            (hdrs s (block - sizeof_header_t))\<lparr>s_is_free := 1\<rparr>)\<rparr>)"
  using assms by (simp add: free_def sbrk_zero Let_def)

lemma free_release_single:
  assumes wf: "wf_list s [t]"
  shows "free s (t + sizeof_header_t) = Some (s\<lparr>head := NULL, tail := NULL, brk := t\<rparr>)"
    and "wf_list (s\<lparr>head := NULL, tail := NULL, brk := t\<rparr>) []"
proof -
  note D = wf_listD [OF wf]
  from D(1,2) have ht: "head s = t" "tail s = t" by simp_all
  from D(3) have e: "block_end (hdrs s) t = unat (brk s)" by simp
  note W = last_block_words(1-3) [OF e D(7)]
  let ?s1 = "s\<lparr>head := NULL, tail := NULL\<rparr>"
  have "sbrk ?s1 (0 - s_size (hdrs ?s1 t) - sizeof_header_t) = (brk ?s1, ?s1\<lparr>brk := t\<rparr>)"
    using e D(7) by (intro sbrk_release) simp_all
  then show "free s (t + sizeof_header_t) = Some (s\<lparr>head := NULL, tail := NULL, brk := t\<rparr>)"
    using W ht by (simp add: free_def sbrk_zero Let_def)
  from wf_list_mem [OF wf, of t] D(8) have "t \<noteq> NULL" "unat t \<le> unat (brk_max s)" by simp_all
  with D(6) show "wf_list (s\<lparr>head := NULL, tail := NULL, brk := t\<rparr>) []"
    by (simp add: wf_list_def word_le_nat_alt)
qed

lemma free_release_last:
  assumes wf: "wf_list s (bs @ [q, t])"
  shows "free s (t + sizeof_header_t) =
      Some (s\<lparr>tail := q, hdrs := (hdrs s)(q := (hdrs s q)\<lparr>s_next := NULL\<rparr>), brk := t\<rparr>)"
    and "wf_list (s\<lparr>tail := q, hdrs := (hdrs s)(q := (hdrs s q)\<lparr>s_next := NULL\<rparr>), brk := t\<rparr>)
      (bs @ [q])"
proof -
  note D = wf_listD [OF wf]
  let ?h = "(hdrs s)(q := (hdrs s q)\<lparr>s_next := NULL\<rparr>)"
  let ?s1 = "s\<lparr>hdrs := ?h, tail := q\<rparr>"
  from D(2) have tl: "tail s = t" by simp
  from D(1) have "head s = hd (bs @ [q, t])" by (cases bs) auto
  moreover have "hd (bs @ [q, t]) \<in> set (bs @ [q])" by (cases bs) auto
  ultimately have ne: "head s \<noteq> tail s" using D(9) tl by auto
  from D(9) have qt: "q \<noteq> t" by simp
  from D(3) have c: "contig (hdrs s) ((bs @ [q]) @ [t]) (brk s)" by simp
  then have e: "block_end (hdrs s) t = unat (brk s)" and c': "contig (hdrs s) (bs @ [q]) t"
    by (simp_all only: contig_snoc)
  note W = last_block_words(1-3) [OF e D(7)]
  have loop: "free_loop s (head s) = Some ?s1"
    using D(1) D(9) tl by (rule free_loop_path)
  have "block_end (hdrs ?s1) t = unat (brk ?s1)" using e qt by (simp add: block_end_def)
  then have "sbrk ?s1 (0 - s_size (hdrs ?s1 t) - sizeof_header_t) = (brk ?s1, ?s1\<lparr>brk := t\<rparr>)"
    using D(7) by (intro sbrk_release) simp_all
  then show "free s (t + sizeof_header_t) = Some (s\<lparr>tail := q, hdrs := ?h, brk := t\<rparr>)"
    using W ne loop by (simp add: free_def sbrk_zero Let_def)
  have p: "path ?h (head s) (bs @ [q])"
    using D(1) D(9) by (rule path_butlast_upd)
  have c2: "contig ?h (bs @ [q]) t"
    using c' by (subst contig_cong [of _ _ "hdrs s"]) auto
  from wf_list_mem [OF wf, of t] D(8) have "t \<noteq> NULL" "unat t \<le> unat (brk_max s)" by simp_all
  with D(6) p c2 show "wf_list (s\<lparr>tail := q, hdrs := ?h, brk := t\<rparr>) (bs @ [q])"
    by (simp add: wf_list_def word_le_nat_alt)
qed

text \<open>On a proper list \<^verbatim>\<open>free\<close> returns, and it writes no payload byte.\<close>

lemma free_returns:
  assumes p: "path (hdrs s) (head s) as" and d: "distinct as"
    and t: "tail s = (if as = [] then NULL else last as)"
  shows "\<exists>s'. free s block = Some s' \<and> mem s' = mem s"
proof (cases "block \<noteq> NULL \<and>
    block + s_size (hdrs s (block - sizeof_header_t)) = brk s \<and> head s \<noteq> tail s")
  case False
  then show ?thesis by (auto simp: free_def sbrk_zero sbrk_mem Let_def)
next
  case True
  then have ne: "head s \<noteq> tail s" by simp
  with p t have "as \<noteq> []" by (cases as) auto
  then obtain bs x where as: "as = bs @ [x]" by (cases as rule: rev_cases) auto
  with t have x: "tail s = x" by simp
  have "bs \<noteq> []"
  proof
    assume "bs = []"
    with p as have "head s = x" by simp
    with x ne show False by simp
  qed
  then obtain cs q where "bs = cs @ [q]" by (cases bs rule: rev_cases) auto
  with as have as': "as = cs @ [q, x]" by simp
  from p d x have "free_loop s (head s) =
      Some (s\<lparr>hdrs := (hdrs s)(q := (hdrs s q)\<lparr>s_next := NULL\<rparr>), tail := q\<rparr>)"
    unfolding as' by (rule free_loop_path)
  with True show ?thesis by (simp add: free_def sbrk_zero sbrk_mem Let_def)
qed

lemma free_wf:
  assumes wf: "wf_list s as" and a: "a \<in> set as"
  shows "\<exists>s' as'. free s (a + sizeof_header_t) = Some s' \<and> wf_list s' as'"
proof (cases "a = last as")
  case True
  with a obtain bs where as: "as = bs @ [a]"
    by (cases as rule: rev_cases) auto
  show ?thesis
  proof (cases bs rule: rev_cases)
    case Nil
    with as wf free_release_single [of s a] show ?thesis by auto
  next
    case (snoc cs q)
    with as wf have "wf_list s (cs @ [q, a])" by simp
    from free_release_last [OF this] show ?thesis by blast
  qed
next
  case False
  with at_break_iff [OF wf a]
  have ne: "a + sizeof_header_t + s_size (hdrs s (a + sizeof_header_t - sizeof_header_t)) \<noteq> brk s"
    by simp
  have nz: "a + sizeof_header_t \<noteq> 0"
    using wf_list_mem(1) [OF wf a] wf_listD(7) [OF wf] by (rule block_words(1))
  from free_mark [OF nz ne] wf_flag [OF wf] show ?thesis by blast
qed

subsection \<open>calloc, realloc and sequences of calls\<close>

lemma calloc_wf:
  assumes wf: "wf_list s as"
    and v: "2 ^ 64 \<le> unat num * unat nsize \<or> unat sizeof_header_t + unat num * unat nsize < 2 ^ 63"
  shows "\<exists>r s' as'. calloc s num nsize = Some (r, s') \<and> wf_list s' as'"
proof (cases "num = 0 \<or> nsize = 0 \<or> nsize \<noteq> (num * nsize) div num")
  case True
  with wf show ?thesis by (auto simp: calloc_def Let_def)
next
  case False
  then have nz: "num \<noteq> 0" and chk: "nsize = (num * nsize) div num" by auto
  from chk have lt: "unat num * unat nsize < 2 ^ 64" by (simp only: calloc_check_iff [OF nz])
  then have "unat (num * nsize) = unat num * unat nsize" by (simp add: unat_word_ariths)
  with v lt have "size_ok (num * nsize)" by (simp add: size_ok_def)
  from malloc_wf [OF wf this] obtain r s' as' where
    "malloc s (num * nsize) = Some (r, s')" "wf_list s' as'" by blast
  with False show ?thesis by (auto simp: calloc_def Let_def memset_hdrs)
qed

lemma realloc_wf:
  assumes wf: "wf_list s as" and h: "block = NULL \<or> block - sizeof_header_t \<in> set as"
    and sz: "size_ok sz"
  shows "\<exists>r s' as'. realloc s block sz = Some (r, s') \<and> wf_list s' as'"
proof (cases "block = NULL \<or> sz = 0")
  case True
  with malloc_wf [OF wf sz] show ?thesis by (auto simp: realloc_def)
next
  case False
  with h have a: "block - sizeof_header_t \<in> set as" by simp
  show ?thesis
  proof (cases "sz \<le> s_size (hdrs s (block - sizeof_header_t))")
    case True
    with False wf show ?thesis by (auto simp: realloc_def Let_def)
  next
    case gt: False
    from malloc_wf [OF wf sz] obtain r s1 as1 where
      m: "malloc s sz = Some (r, s1)" and wf1: "wf_list s1 as1" and sub: "set as \<subseteq> set as1"
      by blast
    show ?thesis
    proof (cases "r = NULL")
      case True
      with False gt m wf1 show ?thesis by (auto simp: realloc_def Let_def)
    next
      case rn: False
      let ?s2 = "memcpy s1 r block (s_size (hdrs s1 (block - sizeof_header_t)))"
      have "wf_list ?s2 as1" using wf1 by (simp only: memcpy_hdrs)
      moreover from a sub have "block - sizeof_header_t \<in> set as1" by auto
      ultimately obtain s3 as3 where
        "free ?s2 (block - sizeof_header_t + sizeof_header_t) = Some s3" "wf_list s3 as3"
        using free_wf by blast
      then have "free ?s2 block = Some s3" by simp
      with False gt m rn \<open>wf_list s3 as3\<close> show ?thesis by (auto simp: realloc_def Let_def)
    qed
  qed
qed

lemma exec_op_wf:
  assumes wf: "wf_list s as" and v: "valid_op s x"
  shows "\<exists>s' as'. exec_op s x = Some s' \<and> wf_list s' as'"
proof (cases x)
  case (Malloc sz)
  with v malloc_wf [OF wf, of sz] show ?thesis by auto
next
  case (Calloc num nsize)
  with v calloc_wf [OF wf, of num nsize] show ?thesis by auto
next
  case (Realloc block sz)
  with v realloc_wf [OF wf, of block sz] show ?thesis
    by (auto simp: valid_handle_wf [OF wf])
next
  case (Free block)
  show ?thesis
  proof (cases "block = NULL")
    case True
    with Free wf show ?thesis by (auto simp: free_def)
  next
    case False
    with Free v have "block - sizeof_header_t \<in> set as" by (simp add: valid_handle_wf [OF wf])
    from free_wf [OF wf this] Free show ?thesis by simp
  qed
qed

lemma run_wf:
  "wf_list s as \<Longrightarrow> valid_ops s ops \<Longrightarrow> \<exists>s' as'. run s ops = Some s' \<and> wf_list s' as'"
proof (induction ops arbitrary: s as)
  case Nil
  then show ?case by auto
next
  case (Cons x xs)
  from Cons.prems have "valid_op s x" by simp
  from exec_op_wf [OF Cons.prems(1) this] obtain s1 as1 where
    1: "exec_op s x = Some s1" "wf_list s1 as1" by blast
  with Cons.prems have "valid_ops s1 xs" by simp
  from Cons.IH [OF 1(2) this] 1(1) show ?case by simp
qed

subsection \<open>The example states\<close>

text \<open>The definitions to unfold when a call is evaluated on a concrete state.\<close>

lemmas eval_defs = malloc_def calloc_def realloc_def free_def get_free_block_def
  get_free_block_loop.simps free_loop.simps traverse.simps block_list_def valid_handle_def
  size_ok_def sbrk_def sbrk_ok_def sint_nonneg_iff memset_def memcpy_def sizeof_header_t_def
  Let_def

lemma ex_init_wf: "wf_list ex_init []"
  by (simp add: wf_list_def ex_init_def)

lemma ex_low_fields:
  "head ex_low = 4096" "tail ex_low = 4096" "brk ex_low = 4140" "brk_max ex_low = 4150"
  "hdrs ex_low 4096 = \<lparr>s_size = 20, s_is_free = 0, s_next = NULL\<rparr>"
  by (simp_all add: ex_low_def appended_def ex_init_def sizeof_header_t_def Let_def)

lemma ex_two_fields:
  "head ex_two = 4096" "tail ex_two = 4140" "brk ex_two = 4176" "brk_max ex_two = 65536"
  "hdrs ex_two 4096 = \<lparr>s_size = 20, s_is_free = 0, s_next = 4140\<rparr>"
  "hdrs ex_two 4140 = \<lparr>s_size = 12, s_is_free = 0, s_next = NULL\<rparr>"
  by (simp_all add: ex_two_def appended_def ex_init_def sizeof_header_t_def Let_def)

lemma ex_two_wf: "wf_list ex_two [4096, 4140]"
  by (simp add: wf_list_def ex_two_fields block_end_def sizeof_header_t_def)

lemma ex_reuse_fields:
  "head ex_reuse = 4096" "tail ex_reuse = 4140" "brk ex_reuse = 4176" "brk_max ex_reuse = 65536"
  "hdrs ex_reuse 4096 = \<lparr>s_size = 20, s_is_free = 1, s_next = 4140\<rparr>"
  "hdrs ex_reuse 4140 = \<lparr>s_size = 12, s_is_free = 0, s_next = NULL\<rparr>"
  by (simp_all add: ex_reuse_def marked_free_def memset_def appended_def ex_init_def
      sizeof_header_t_def Let_def)

lemma ex_reuse_wf: "wf_list ex_reuse [4096, 4140]"
  by (simp add: wf_list_def ex_reuse_fields block_end_def sizeof_header_t_def)

lemma ex_reuse_find: "find (fits (hdrs ex_reuse) 20) [4096, 4140] = Some 4096"
  by (simp add: fits_def ex_reuse_fields)

lemma calloc_ex_init:
  "calloc ex_init 3 4 = Some (4120, memset (appended ex_init 12) 4120 0 12)"
proof -
  have 1: "path (hdrs ex_init) (head ex_init) []" by (simp add: ex_init_def)
  have 2: "sbrk_ok ex_init (sizeof_header_t + 12)"
    by (simp add: sbrk_ok_def sint_nonneg_iff ex_init_def sizeof_header_t_def)
  have 3: "brk ex_init \<noteq> - 1" by (simp add: ex_init_def)
  have "malloc ex_init 12 = Some (brk ex_init + sizeof_header_t, appended ex_init 12)"
    using 1 _ _ 2 3 by (rule malloc_grow) simp_all
  moreover have "brk ex_init + sizeof_header_t = 4120"
    by (simp add: ex_init_def sizeof_header_t_def)
  ultimately show ?thesis by (simp add: calloc_def)
qed

text \<open>The example states are states the calls reach.\<close>

lemma ex_low_reached: "run (ex_init\<lparr>brk_max := 4150\<rparr>) [Malloc 20] = Some ex_low"
  by (simp add: ex_low_def appended_def ex_init_def eval_defs)

lemma ex_two_reached: "run ex_init [Malloc 20, Malloc 12] = Some ex_two"
  by (simp add: ex_two_def appended_def ex_init_def eval_defs)

lemma ex_reuse_reached: "run ex_init [Malloc 20, Calloc 3 4, Free 4120] = Some ex_reuse"
  by (simp add: ex_reuse_def marked_free_def appended_def ex_init_def eval_defs)

section \<open>The claims\<close>

subsection \<open>allocate\<close>

text \<open>
  C1. When the first-fit scan finds a free block that is large enough, \<^verbatim>\<open>malloc\<close> should mark
  it in use and return its payload handle. The code marks it and returns \<^verbatim>\<open>NULL\<close>: in the
  state of the specification's scenario after \<^verbatim>\<open>allocate(20)\<close>, \<^verbatim>\<open>zeroAllocate(3, 4)\<close> and the
  release of the first block, the scan for 20 bytes finds the free block at 4096, whose
  payload handle is 4120, and \<^verbatim>\<open>malloc(20)\<close> returns \<^verbatim>\<open>NULL\<close>.
\<close>

theorem malloc_reuse_returns_null:
  "run ex_init [Malloc 20, Calloc 3 4, Free 4120] = Some ex_reuse \<and>
   get_free_block ex_reuse 20 = Some 4096 \<and>
   malloc ex_reuse 20 =
     Some (NULL, ex_reuse\<lparr>hdrs := (hdrs ex_reuse)(4096 := (hdrs ex_reuse 4096)\<lparr>s_is_free := 0\<rparr>)\<rparr>)"
proof -
  have p: "path (hdrs ex_reuse) (head ex_reuse) [4096, 4140]"
    using ex_reuse_wf by (rule wf_listD(1))
  have nz: "(20 :: 64 word) \<noteq> 0" by simp
  have "get_free_block ex_reuse 20 = Some 4096"
    by (simp only: get_free_block_path [OF p] ex_reuse_find option.simps)
  moreover have "malloc ex_reuse 20 =
     Some (NULL, ex_reuse\<lparr>hdrs := (hdrs ex_reuse)(4096 := (hdrs ex_reuse 4096)\<lparr>s_is_free := 0\<rparr>)\<rparr>)"
    by (rule malloc_reuse [OF p nz ex_reuse_find])
  ultimately show ?thesis using ex_reuse_reached by blast
qed

text \<open>
  C10. A call \<^verbatim>\<open>malloc(size)\<close> with \<open>size > 0\<close> whose scan finds a free block \<open>a\<close> of the list
  that is large enough clears the flag of \<open>a\<close>, and nothing else changes, although the
  value returned is \<^verbatim>\<open>NULL\<close>.
\<close>

theorem malloc_reuse_clears_flag:
  assumes "path (hdrs s) (head s) as" and "sz \<noteq> 0"
    and "find (fits (hdrs s) sz) as = Some a"
  shows "\<exists>r s'. malloc s sz = Some (r, s') \<and> r = NULL \<and>
           s' = s\<lparr>hdrs := (hdrs s)(a := (hdrs s a)\<lparr>s_is_free := 0\<rparr>)\<rparr> \<and>
           s_is_free (hdrs s' a) = 0"
  using malloc_reuse [OF assms] by simp

theorem malloc_reuse_clears_flag_witness:
  "path (hdrs ex_reuse) (head ex_reuse) [4096, 4140] \<and> (12 :: 64 word) \<noteq> 0 \<and>
   find (fits (hdrs ex_reuse) 12) [4096, 4140] = Some 4096 \<and>
   s_is_free (hdrs ex_reuse 4096) = 1 \<and>
   (\<exists>r s'. malloc ex_reuse 12 = Some (r, s') \<and> r = NULL \<and>
      s' = ex_reuse\<lparr>hdrs := (hdrs ex_reuse)(4096 := (hdrs ex_reuse 4096)\<lparr>s_is_free := 0\<rparr>)\<rparr> \<and>
      s_is_free (hdrs s' 4096) = 0)"
proof -
  have 1: "path (hdrs ex_reuse) (head ex_reuse) [4096, 4140]"
    using ex_reuse_wf by (rule wf_listD(1))
  have 2: "(12 :: 64 word) \<noteq> 0" by simp
  have 3: "find (fits (hdrs ex_reuse) 12) [4096, 4140] = Some 4096"
    by (simp add: fits_def ex_reuse_fields)
  have 4: "s_is_free (hdrs ex_reuse 4096) = 1" by (simp add: ex_reuse_fields)
  from 1 2 3 4 malloc_reuse_clears_flag [OF 1 2 3] show ?thesis by blast
qed

text \<open>
  C3. A call \<^verbatim>\<open>malloc(size)\<close> with \<open>size > 0\<close>, no free block of the list large enough and a
  failing \<^verbatim>\<open>sbrk\<close> returns \<^verbatim>\<open>NULL\<close> and leaves the whole state as it was: \<^verbatim>\<open>head\<close>, \<^verbatim>\<open>tail\<close>,
  every header and the break.
\<close>

theorem malloc_out_of_memory:
  assumes "path (hdrs s) (head s) as" and "sz \<noteq> 0"
    and "find (fits (hdrs s) sz) as = None"
    and "\<not> sbrk_ok s (sizeof_header_t + sz)"
  shows "malloc s sz = Some (NULL, s)"
  using assms by (rule malloc_oom)

theorem malloc_out_of_memory_witness:
  "path (hdrs ex_low) (head ex_low) [4096] \<and> (20 :: 64 word) \<noteq> 0 \<and>
   find (fits (hdrs ex_low) 20) [4096] = None \<and> \<not> sbrk_ok ex_low (sizeof_header_t + 20) \<and>
   malloc ex_low 20 = Some (NULL, ex_low)"
proof -
  have 1: "path (hdrs ex_low) (head ex_low) [4096]" by (simp add: ex_low_fields)
  have 2: "(20 :: 64 word) \<noteq> 0" by simp
  have 3: "find (fits (hdrs ex_low) 20) [4096] = None" by (simp add: fits_def ex_low_fields)
  have 4: "\<not> sbrk_ok ex_low (sizeof_header_t + 20)"
    by (simp add: sbrk_ok_def sint_nonneg_iff ex_low_fields sizeof_header_t_def)
  from 1 2 3 4 malloc_out_of_memory [OF 1 2 3 4] show ?thesis by blast
qed

subsection \<open>deallocate\<close>

text \<open>
  C2. A call \<^verbatim>\<open>free(block)\<close> on a block of the list whose payload ends at the break: when the
  block is both \<^verbatim>\<open>head\<close> and \<^verbatim>\<open>tail\<close> the list becomes empty; otherwise the header before
  \<^verbatim>\<open>tail\<close> gets the link \<^verbatim>\<open>NULL\<close> and becomes \<^verbatim>\<open>tail\<close>. In both cases the break goes down by
  exactly the header size plus the block's size, and the block is no longer in the list.
\<close>

theorem free_at_break:
  assumes wf: "wf_list s as" and a: "block - sizeof_header_t \<in> set as"
    and b: "block + s_size (hdrs s (block - sizeof_header_t)) = brk s"
  shows "\<exists>s' bs. free s block = Some s' \<and> as = bs @ [block - sizeof_header_t] \<and>
      (if head s = block - sizeof_header_t \<and> tail s = block - sizeof_header_t
       then bs = [] \<and> head s' = NULL \<and> tail s' = NULL \<and> hdrs s' = hdrs s
       else (\<exists>cs q. bs = cs @ [q] \<and> head s' = head s \<and> tail s' = q \<and>
               hdrs s' = (hdrs s)(q := (hdrs s q)\<lparr>s_next := NULL\<rparr>))) \<and>
      brk s' = brk s - (sizeof_header_t + s_size (hdrs s (block - sizeof_header_t))) \<and>
      unat (brk s') + (unat sizeof_header_t + unat (s_size (hdrs s (block - sizeof_header_t))))
        = unat (brk s) \<and>
      mem s' = mem s \<and> wf_list s' bs \<and> block_list s' = Some bs \<and>
      block - sizeof_header_t \<notin> set bs"
proof -
  define t where "t = block - sizeof_header_t"
  then have block: "block = t + sizeof_header_t" by simp
  note D = wf_listD [OF wf]
  from a have t: "t \<in> set as" by (simp add: t_def)
  from b have "t + sizeof_header_t + s_size (hdrs s t) = brk s" by (simp add: block)
  with at_break_iff [OF wf t] have last: "t = last as" by simp
  with t obtain bs where as: "as = bs @ [t]" by (cases as rule: rev_cases) auto
  with D(9) have notin: "t \<notin> set bs" by simp
  from D(2) as have tl: "tail s = t" by simp
  from D(3) as have e: "block_end (hdrs s) t = unat (brk s)" by (simp only: contig_snoc)
  then have u: "unat t + (unat sizeof_header_t + unat (s_size (hdrs s t))) = unat (brk s)"
    by (simp add: block_end_def)
  from last_block_words(3) [OF e D(7)]
  have w: "brk s - (sizeof_header_t + s_size (hdrs s t)) = t" by (auto simp: algebra_simps)
  show ?thesis
  proof (cases bs rule: rev_cases)
    case Nil
    with as wf have wf1: "wf_list s [t]" by simp
    from D(1) as Nil have hd: "head s = t" by simp
    note R = free_release_single [OF wf1]
    from R(2) have "block_list (s\<lparr>head := NULL, tail := NULL, brk := t\<rparr>) = Some []"
      by (rule block_list_wf)
    with R as Nil hd tl u w show ?thesis
      unfolding block [symmetric] t_def [symmetric]
      by (intro exI [of _ "s\<lparr>head := NULL, tail := NULL, brk := t\<rparr>"] exI [of _ "[]"]) simp
  next
    case (snoc cs q)
    with as wf have wf1: "wf_list s (cs @ [q, t])" by simp
    from D(1) as snoc have "head s = hd (cs @ [q, t])" by (cases cs) auto
    moreover have "hd (cs @ [q, t]) \<in> set (cs @ [q])" by (cases cs) auto
    ultimately have hd: "head s \<noteq> t" using notin snoc by auto
    note R = free_release_last [OF wf1]
    let ?s' = "s\<lparr>tail := q, hdrs := (hdrs s)(q := (hdrs s q)\<lparr>s_next := NULL\<rparr>), brk := t\<rparr>"
    from R(2) have "block_list ?s' = Some (cs @ [q])" by (rule block_list_wf)
    with R as snoc hd notin u w show ?thesis
      unfolding block [symmetric] t_def [symmetric]
      by (intro exI [of _ ?s'] exI [of _ "cs @ [q]"]) simp
  qed
qed

theorem free_at_break_witness:
  "wf_list ex_two [4096, 4140] \<and> 4164 - sizeof_header_t \<in> set [4096, 4140 :: addr] \<and>
   4164 + s_size (hdrs ex_two (4164 - sizeof_header_t)) = brk ex_two \<and>
   (\<exists>s' bs. free ex_two 4164 = Some s' \<and> [4096, 4140] = bs @ [4164 - sizeof_header_t] \<and>
      (if head ex_two = 4164 - sizeof_header_t \<and> tail ex_two = 4164 - sizeof_header_t
       then bs = [] \<and> head s' = NULL \<and> tail s' = NULL \<and> hdrs s' = hdrs ex_two
       else (\<exists>cs q. bs = cs @ [q] \<and> head s' = head ex_two \<and> tail s' = q \<and>
               hdrs s' = (hdrs ex_two)(q := (hdrs ex_two q)\<lparr>s_next := NULL\<rparr>))) \<and>
      brk s' = brk ex_two - (sizeof_header_t + s_size (hdrs ex_two (4164 - sizeof_header_t))) \<and>
      unat (brk s') +
        (unat sizeof_header_t + unat (s_size (hdrs ex_two (4164 - sizeof_header_t))))
        = unat (brk ex_two) \<and>
      mem s' = mem ex_two \<and> wf_list s' bs \<and> block_list s' = Some bs \<and>
      4164 - sizeof_header_t \<notin> set bs)"
proof -
  have 1: "4164 - sizeof_header_t \<in> set [4096, 4140 :: addr]"
    by (simp add: sizeof_header_t_def)
  have 2: "4164 + s_size (hdrs ex_two (4164 - sizeof_header_t)) = brk ex_two"
    by (simp add: sizeof_header_t_def ex_two_fields)
  from ex_two_wf 1 2 free_at_break [OF ex_two_wf 1 2] show ?thesis by blast
qed

text \<open>
  C9. A call \<^verbatim>\<open>free(block)\<close> with a non-null block whose payload does not end at the break
  only sets the flag of the block's header: \<^verbatim>\<open>head\<close>, \<^verbatim>\<open>tail\<close>, the break, the payload bytes,
  every other header, and the size and the link of this one are unchanged, and the
  traversal from \<^verbatim>\<open>head\<close> meets the same headers as before.
\<close>

theorem free_not_at_break:
  assumes "block \<noteq> NULL"
    and "block + s_size (hdrs s (block - sizeof_header_t)) \<noteq> brk s"
  shows "\<exists>s'. free s block = Some s' \<and>
           head s' = head s \<and> tail s' = tail s \<and> brk s' = brk s \<and> brk_max s' = brk_max s \<and>
           mem s' = mem s \<and>
           (\<forall>b. b \<noteq> block - sizeof_header_t \<longrightarrow> hdrs s' b = hdrs s b) \<and>
           hdrs s' (block - sizeof_header_t) =
             (hdrs s (block - sizeof_header_t))\<lparr>s_is_free := 1\<rparr> \<and>
           block_list s' = block_list s"
proof -
  have "free s block = Some (marked_free s (block - sizeof_header_t))"
    using free_mark [OF assms] by (simp add: marked_free_def)
  moreover have "block_list (marked_free s (block - sizeof_header_t)) = block_list s"
    by (rule block_list_marked_free)
  ultimately show ?thesis by (simp add: marked_free_def)
qed

theorem free_not_at_break_witness:
  "(4120 :: addr) \<noteq> NULL \<and>
   4120 + s_size (hdrs ex_two (4120 - sizeof_header_t)) \<noteq> brk ex_two \<and>
   block_list ex_two = Some [4096, 4140] \<and>
   (\<exists>s'. free ex_two 4120 = Some s' \<and>
           head s' = head ex_two \<and> tail s' = tail ex_two \<and> brk s' = brk ex_two \<and>
           brk_max s' = brk_max ex_two \<and> mem s' = mem ex_two \<and>
           (\<forall>b. b \<noteq> 4120 - sizeof_header_t \<longrightarrow> hdrs s' b = hdrs ex_two b) \<and>
           hdrs s' (4120 - sizeof_header_t) =
             (hdrs ex_two (4120 - sizeof_header_t))\<lparr>s_is_free := 1\<rparr> \<and>
           block_list s' = block_list ex_two)"
proof -
  have 1: "(4120 :: addr) \<noteq> NULL" by simp
  have 2: "4120 + s_size (hdrs ex_two (4120 - sizeof_header_t)) \<noteq> brk ex_two"
    by (simp add: sizeof_header_t_def ex_two_fields)
  have 3: "block_list ex_two = Some [4096, 4140]"
    using ex_two_wf by (rule block_list_wf)
  from 1 2 3 free_not_at_break [OF 1 2] show ?thesis by blast
qed

subsection \<open>zeroAllocate\<close>

text \<open>
  C6. \<^verbatim>\<open>calloc(num, nsize)\<close> returns \<^verbatim>\<open>NULL\<close> and leaves the state as it was (no growth of
  the region, no byte written) when \<open>num\<close> or \<open>nsize\<close> is 0, and otherwise when the product
  overflows 64 bits, which is when \<open>(num * nsize mod 2^64) div num\<close> differs from \<open>nsize\<close>.
\<close>

theorem calloc_zero_or_overflow:
  assumes "num = 0 \<or> nsize = 0 \<or> 2 ^ 64 \<le> unat num * unat nsize \<or>
           (unat num * unat nsize mod 2 ^ 64) div unat num \<noteq> unat nsize"
  shows "calloc s num nsize = Some (NULL, s)"
proof (cases "num = 0 \<or> nsize = 0")
  case True
  then show ?thesis by (simp add: calloc_def)
next
  case False
  then have nz: "num \<noteq> 0" by simp
  have "nsize \<noteq> (num * nsize) div num"
  proof
    assume eq: "nsize = (num * nsize) div num"
    then have lt: "unat num * unat nsize < 2 ^ 64" by (simp only: calloc_check_iff [OF nz])
    from eq have "unat nsize = unat ((num * nsize) div num)" by simp
    then have "unat nsize = (unat num * unat nsize mod 2 ^ 64) div unat num"
      by (simp add: unat_div unat_word_ariths)
    with lt False assms show False by simp
  qed
  with False show ?thesis by (simp add: calloc_def Let_def)
qed

theorem calloc_zero_or_overflow_witness:
  "2 ^ 64 \<le> unat (4294967296 :: 64 word) * unat (4294967297 :: 64 word) \<and>
   (unat (4294967296 :: 64 word) * unat (4294967297 :: 64 word) mod 2 ^ 64)
      div unat (4294967296 :: 64 word) \<noteq> unat (4294967297 :: 64 word) \<and>
   calloc ex_two 4294967296 4294967297 = Some (NULL, ex_two) \<and>
   calloc ex_two 0 8 = Some (NULL, ex_two) \<and>
   calloc ex_two 8 0 = Some (NULL, ex_two)"
proof -
  have 1: "2 ^ 64 \<le> unat (4294967296 :: 64 word) * unat (4294967297 :: 64 word)" by simp
  have 2: "(unat (4294967296 :: 64 word) * unat (4294967297 :: 64 word) mod 2 ^ 64)
      div unat (4294967296 :: 64 word) \<noteq> unat (4294967297 :: 64 word)" by simp
  from 1 have "calloc ex_two 4294967296 4294967297 = Some (NULL, ex_two)"
    by (intro calloc_zero_or_overflow) simp
  moreover have "calloc ex_two 0 8 = Some (NULL, ex_two)"
    by (intro calloc_zero_or_overflow) simp
  moreover have "calloc ex_two 8 0 = Some (NULL, ex_two)"
    by (intro calloc_zero_or_overflow) simp
  ultimately show ?thesis using 1 2 by blast
qed

text \<open>
  C7. When \<^verbatim>\<open>calloc(num, nsize)\<close> returns a handle, each of the \<open>num * nsize\<close> bytes from the
  handle on is 0 in the state it returns.
\<close>

theorem calloc_zeroed:
  assumes "calloc s num nsize = Some (block, s')" and "block \<noteq> NULL"
    and "i < unat num * unat nsize"
  shows "mem s' (block + of_nat i) = 0"
proof -
  from assms(1,2) have nz: "num \<noteq> 0" and chk: "nsize = (num * nsize) div num"
    by (auto simp: calloc_def Let_def split: if_splits)
  from chk have lt: "unat num * unat nsize < 2 ^ 64" by (simp only: calloc_check_iff [OF nz])
  then have sz: "unat (num * nsize) = unat num * unat nsize" by (simp add: unat_word_ariths)
  from assms(1,2) nz chk obtain s1 where s': "s' = memset s1 block 0 (num * nsize)"
    by (auto simp: calloc_def Let_def split: if_splits option.splits)
  from assms(3) lt have "unat (of_nat i :: 64 word) = i" by (simp add: unat_of_nat)
  with assms(3) sz have "(of_nat i :: 64 word) < num * nsize" by (simp add: word_less_nat_alt)
  then show ?thesis by (simp add: s' memset_def)
qed

theorem calloc_zeroed_witness:
  "calloc ex_init 3 4 = Some (4120, memset (appended ex_init 12) 4120 0 12) \<and>
   (4120 :: addr) \<noteq> NULL \<and> 11 < unat (3 :: 64 word) * unat (4 :: 64 word) \<and>
   mem ex_init (4120 + of_nat 11) = 170 \<and>
   mem (memset (appended ex_init 12) 4120 0 12) (4120 + of_nat 11) = 0"
proof -
  have 1: "(4120 :: addr) \<noteq> NULL" by simp
  have 2: "11 < unat (3 :: 64 word) * unat (4 :: 64 word)" by simp
  have 3: "mem ex_init (4120 + of_nat 11) = 170" by (simp add: ex_init_def)
  from calloc_ex_init 1 2 3 calloc_zeroed [OF calloc_ex_init 1 2] show ?thesis by blast
qed

subsection \<open>resize\<close>

text \<open>
  C8. A call \<^verbatim>\<open>realloc(block, size)\<close> with a non-null block, \<open>size > 0\<close> and a recorded size of
  at least \<open>size\<close> returns \<open>block\<close> and changes nothing: the recorded size, the flag, the
  link and the payload bytes are those of before.
\<close>

theorem realloc_no_shrink:
  assumes "block \<noteq> NULL" and "sz \<noteq> 0"
    and "sz \<le> s_size (hdrs s (block - sizeof_header_t))"
  shows "realloc s block sz = Some (block, s)"
  using assms by (simp add: realloc_def Let_def)

theorem realloc_no_shrink_witness:
  "(4120 :: addr) \<noteq> NULL \<and> (8 :: 64 word) \<noteq> 0 \<and>
   8 \<le> s_size (hdrs ex_reuse (4120 - sizeof_header_t)) \<and>
   realloc ex_reuse 4120 8 = Some (4120, ex_reuse)"
proof -
  have 1: "(4120 :: addr) \<noteq> NULL" by simp
  have 2: "(8 :: 64 word) \<noteq> 0" by simp
  have 3: "8 \<le> s_size (hdrs ex_reuse (4120 - sizeof_header_t))"
    by (simp add: sizeof_header_t_def ex_reuse_fields)
  from 1 2 3 realloc_no_shrink [OF 1 2 3] show ?thesis by blast
qed

text \<open>
  C4. A call \<^verbatim>\<open>realloc(block, size)\<close> on a block with \<open>size\<close> greater than the recorded size
  should call \<^verbatim>\<open>malloc(size)\<close>; return \<^verbatim>\<open>NULL\<close> and leave the block untouched if that fails;
  and otherwise copy the old payload to the new one, free the old block and return the
  new handle. The code fails this where the sum of \<^verbatim>\<open>sizeof(header_t)\<close> and the size is no
  positive \<^verbatim>\<open>intptr_t\<close>: \<^verbatim>\<open>malloc\<close> adds the two unchecked (\<^verbatim>\<open>calloc\<close> checks its product).
  After \<^verbatim>\<open>malloc(20)\<close> and \<^verbatim>\<open>malloc(12)\<close>, for the block at 4096 (handle 4120) and the size
  \<open>2^64 - 60\<close>, the sum is \<open>2^64 - 36\<close>, which \<^verbatim>\<open>sbrk\<close> takes as the increment -36: the
  break goes down to 4140, the end of the old block's payload, and the new header is
  written at 4176. \<^verbatim>\<open>free\<close> then takes the old block for the last one, unlinks the new
  block and lowers the break to 4096, where it was at the start. \<^verbatim>\<open>realloc\<close> returns the
  handle 4200 of the unlinked block; the old block is still in the list and in use.
\<close>

theorem realloc_size_overflow:
  "run ex_init [Malloc 20, Malloc 12] = Some ex_two \<and>
   map_option fst (realloc ex_two 4120 18446744073709551556) = Some 4200 \<and>
   Option.bind (realloc ex_two 4120 18446744073709551556) (print_mem_list \<circ> snd)
     = Some (4096, 4140, [(4096, 20, 0, 4140), (4140, 12, 0, NULL)]) \<and>
   map_option (brk \<circ> snd) (realloc ex_two 4120 18446744073709551556) = Some 4096"
  using ex_two_reached
  by (simp add: ex_two_def appended_def ex_init_def eval_defs print_mem_list_def)

text \<open>
  Apart from such sizes the code does what C4 says. On a block of the list, with \<open>size\<close>
  greater than the recorded size: if \<^verbatim>\<open>malloc(size)\<close> returns \<^verbatim>\<open>NULL\<close>, so does \<^verbatim>\<open>realloc\<close>, and
  the block's header, the payload bytes and the list are untouched. Otherwise \<^verbatim>\<open>realloc\<close>
  returns the new handle, which differs from \<open>block\<close>; the first (old size) bytes of the
  new payload are the old ones; and \<^verbatim>\<open>free(block)\<close> is applied after the copy, which, when
  header and payload of the request are a positive \<^verbatim>\<open>intptr_t\<close>, marks the old block free
  and leaves it in the list, before the new block.
\<close>

lemma realloc_grow:
  assumes wf: "wf_list s as" and a: "block - sizeof_header_t \<in> set as"
    and gt: "s_size (hdrs s (block - sizeof_header_t)) < sz"
  shows "\<exists>r s1. malloc s sz = Some (r, s1) \<and>
     (if r = NULL
      then realloc s block sz = Some (NULL, s1) \<and>
           hdrs s1 (block - sizeof_header_t) = hdrs s (block - sizeof_header_t) \<and>
           mem s1 = mem s \<and> block_list s1 = Some as
      else (\<exists>s3. free (memcpy s1 r block (s_size (hdrs s (block - sizeof_header_t)))) block
                    = Some s3 \<and>
              realloc s block sz = Some (r, s3) \<and> r \<noteq> block \<and>
              (\<forall>i < unat (s_size (hdrs s (block - sizeof_header_t))).
                 mem s3 (r + of_nat i) = mem s (block + of_nat i)) \<and>
              (size_ok sz \<longrightarrow>
                 s_is_free (hdrs s3 (block - sizeof_header_t)) = 1 \<and>
                 s_size (hdrs s3 (block - sizeof_header_t))
                   = s_size (hdrs s (block - sizeof_header_t)) \<and>
                 block_list s3 = Some (as @ [r - sizeof_header_t]))))"
proof -
  define t where "t = block - sizeof_header_t"
  then have block: "block = t + sizeof_header_t" by simp
  define n where "n = s_size (hdrs s t)"
  note D = wf_listD [OF wf]
  from a have t: "t \<in> set as" by (simp add: t_def)
  note M = wf_list_mem [OF wf t]
  from gt have lt: "n < sz" and nle: "\<not> sz \<le> n" by (simp_all add: n_def t_def)
  then have sz0: "sz \<noteq> 0" by (auto simp: word_less_nat_alt)
  have b0: "block \<noteq> NULL" unfolding block using M(1) D(7) by (rule block_words(1))
  have r1: "realloc s block sz =
      (case malloc s sz of None \<Rightarrow> None
       | Some (ret, s1) \<Rightarrow>
           if ret \<noteq> NULL
           then (case free (memcpy s1 ret block (s_size (hdrs s1 t))) block of
                   None \<Rightarrow> None | Some s3 \<Rightarrow> Some (ret, s3))
           else Some (ret, s1))"
    using b0 sz0 nle unfolding t_def n_def by (simp add: realloc_def Let_def)
  show ?thesis
  proof (cases "find (fits (hdrs s) sz) as")
    case (Some f)
    let ?s1 = "s\<lparr>hdrs := (hdrs s)(f := (hdrs s f)\<lparr>s_is_free := 0\<rparr>)\<rparr>"
    from find_in_path [OF D(1) Some] have "sz \<le> s_size (hdrs s f)" by (simp add: fits_def)
    with nle have ft: "f \<noteq> t" by (auto simp: n_def)
    have m: "malloc s sz = Some (NULL, ?s1)" using D(1) sz0 Some by (rule malloc_reuse)
    have "block_list ?s1 = Some as" using wf_flag [OF wf] by (rule block_list_wf)
    with m ft show ?thesis
      unfolding t_def [symmetric] by (simp add: r1)
  next
    case None
    show ?thesis
    proof (cases "sbrk_ok s (sizeof_header_t + sz)")
      case False
      have m: "malloc s sz = Some (NULL, s)" using D(1) sz0 None False by (rule malloc_oom)
      with block_list_wf [OF wf] show ?thesis
        unfolding t_def [symmetric] by (simp add: r1)
    next
      case True
      let ?s1 = "appended s sz"
      let ?r = "brk s + sizeof_header_t"
      let ?s2 = "memcpy ?s1 ?r block n"
      have "unat (- 1 :: 64 word) = 2 ^ 64 - 1"
        by (simp add: unsigned_minus_1_eq_mask mask_eq_exp_minus_1)
      with D(7) have "brk s \<noteq> - 1" by auto
      with D(1) sz0 None True have m: "malloc s sz = Some (?r, ?s1)" by (rule malloc_grow)
      from D(7) have "unat (brk s) + unat sizeof_header_t < 2 ^ LENGTH(64)"
        by (simp add: unat_sizeof_header_t)
      then have "unat ?r = unat (brk s) + 24"
        by (simp only: unat_add_lem) (simp add: unat_sizeof_header_t)
      then have r0: "?r \<noteq> NULL" by (auto simp: unat_eq_0 [symmetric] simp del: unat_eq_0)
      from M(4) have rb: "?r \<noteq> block" by (simp add: block)
      have n1: "s_size (hdrs ?s1 t) = n" using M(4) by (simp add: appended_hdrs_old n_def)
      have "path (hdrs ?s2) (head ?s2) (as @ [brk s])" "distinct (as @ [brk s])"
        "tail ?s2 = (if as @ [brk s] = [] then NULL else last (as @ [brk s]))"
        using appended_path(1) [OF wf, of sz] appended_path(2) [OF wf]
        by (simp_all add: memcpy_fields appended_fields)
      from free_returns [OF this] obtain s3 where
        f: "free ?s2 block = Some s3" and m3: "mem s3 = mem ?s2" by blast
      have bytes: "mem s3 (?r + of_nat i) = mem s (block + of_nat i)" if "i < unat n" for i
        using that by (simp add: m3 memcpy_fields appended_fields)
      have ok: "s_is_free (hdrs s3 t) = 1 \<and> s_size (hdrs s3 t) = n \<and>
          block_list s3 = Some (as @ [brk s])" if sz: "size_ok sz"
      proof -
        from wf_appended [OF wf sz True] have wf2: "wf_list ?s2 (as @ [brk s])"
          by (simp only: memcpy_hdrs)
        have t2: "t \<in> set (as @ [brk s])" using t by simp
        have "t \<noteq> last (as @ [brk s])" using M(4) by simp
        with at_break_iff [OF wf2 t2]
        have "block + s_size (hdrs ?s2 (block - sizeof_header_t)) \<noteq> brk ?s2"
          by (simp add: block)
        from free_mark [OF b0 this] f
        have s3: "s3 = marked_free ?s2 t" by (simp add: marked_free_def t_def)
        have "wf_list s3 (as @ [brk s])"
          unfolding s3 marked_free_def using wf2 by (rule wf_flag)
        then have "block_list s3 = Some (as @ [brk s])" by (rule block_list_wf)
        then show ?thesis using n1 by (simp add: s3 marked_free_def memcpy_fields)
      qed
      from m r0 rb f n1 bytes ok show ?thesis
        unfolding t_def [symmetric] n_def [symmetric]
        by (simp add: r1)
    qed
  qed
qed

lemma realloc_grow_example:
  "wf_list ex_two [4096, 4140] \<and> 4164 - sizeof_header_t \<in> set [4096, 4140 :: addr] \<and>
   s_size (hdrs ex_two (4164 - sizeof_header_t)) < 20 \<and> size_ok 20 \<and>
   malloc ex_two 20 = Some (4200, appended ex_two 20) \<and>
   (\<exists>s3. realloc ex_two 4164 20 = Some (4200, s3) \<and>
      (\<forall>i < unat (s_size (hdrs ex_two (4164 - sizeof_header_t))).
         mem s3 (4200 + of_nat i) = mem ex_two (4164 + of_nat i)) \<and>
      s_is_free (hdrs s3 (4164 - sizeof_header_t)) = 1 \<and>
      s_size (hdrs s3 (4164 - sizeof_header_t)) = 12 \<and>
      block_list s3 = Some [4096, 4140, 4176])"
proof -
  have 1: "4164 - sizeof_header_t \<in> set [4096, 4140 :: addr]"
    by (simp add: sizeof_header_t_def)
  have 2: "s_size (hdrs ex_two (4164 - sizeof_header_t)) < 20"
    by (simp add: sizeof_header_t_def ex_two_fields)
  have 3: "size_ok 20" by (simp add: size_ok_def sizeof_header_t_def)
  have 4: "malloc ex_two 20 = Some (4200, appended ex_two 20)"
  proof -
    have "malloc ex_two 20 = Some (brk ex_two + sizeof_header_t, appended ex_two 20)"
    proof (rule malloc_grow)
      show "path (hdrs ex_two) (head ex_two) [4096, 4140]"
        using ex_two_wf by (rule wf_listD(1))
      show "find (fits (hdrs ex_two) 20) [4096, 4140] = None"
        by (simp add: fits_def ex_two_fields)
      show "sbrk_ok ex_two (sizeof_header_t + 20)"
        by (simp add: sbrk_ok_def sint_nonneg_iff ex_two_fields sizeof_header_t_def)
    qed (simp_all add: ex_two_fields)
    then show ?thesis by (simp add: ex_two_fields sizeof_header_t_def)
  qed
  have 5: "s_size (hdrs ex_two (4164 - sizeof_header_t)) = 12"
    by (simp add: sizeof_header_t_def ex_two_fields)
  from realloc_grow [OF ex_two_wf 1 2] 3 4 5
  have "\<exists>s3. realloc ex_two 4164 20 = Some (4200, s3) \<and>
      (\<forall>i < unat (s_size (hdrs ex_two (4164 - sizeof_header_t))).
         mem s3 (4200 + of_nat i) = mem ex_two (4164 + of_nat i)) \<and>
      s_is_free (hdrs s3 (4164 - sizeof_header_t)) = 1 \<and>
      s_size (hdrs s3 (4164 - sizeof_header_t)) = 12 \<and>
      block_list s3 = Some [4096, 4140, 4176]"
    by (auto simp: sizeof_header_t_def)
  with ex_two_wf 1 2 3 4 show ?thesis by blast
qed

subsection \<open>The invariant of the block list\<close>

text \<open>
  C5. After every sequence of calls from the empty state, \<^verbatim>\<open>head\<close> and \<^verbatim>\<open>tail\<close> should be null
  exactly when the list is empty, and the traversal from \<^verbatim>\<open>head\<close> should meet each block
  once, in strictly increasing address order, and \<^verbatim>\<open>tail\<close> last. The code breaks the order
  where the sum of \<^verbatim>\<open>sizeof(header_t)\<close> and the size is no positive \<^verbatim>\<open>intptr_t\<close> (the same
  unchecked sum as for C4). After \<^verbatim>\<open>malloc(1000)\<close> the break is 5120. For the size
  \<open>2^64 - 124\<close> the sum is \<open>2^64 - 100\<close>, which \<^verbatim>\<open>sbrk\<close> takes as the increment -100: the
  header is written at 5120 and the break goes down to 5020, where the next \<^verbatim>\<open>malloc(1)\<close>
  puts its header, linked after the one at 5120.
\<close>

theorem block_list_order_broken:
  "map_option block_list (run ex_init [Malloc 1000, Malloc 18446744073709551492, Malloc 1])
     = Some (Some [4096, 5120, 5020]) \<and>
   map_option block_list_inv (run ex_init [Malloc 1000, Malloc 18446744073709551492, Malloc 1])
     = Some False"
  by (simp add: ex_init_def eval_defs block_list_inv_def)

text \<open>
  Apart from such sizes the code keeps the list as C5 says. Start with an empty list and
  the break at a user-space address, and make any sequence of calls in which each handle
  passed to \<^verbatim>\<open>realloc\<close> or \<^verbatim>\<open>free\<close> is \<^verbatim>\<open>NULL\<close> or the payload address of a header then in the
  list, and each size requested makes header and payload together a positive \<^verbatim>\<open>intptr_t\<close>
  (for \<^verbatim>\<open>calloc\<close>: when its product does not overflow). Then every call returns, and the
  state reached satisfies \<open>block_list_inv\<close>.
\<close>

lemma block_list_invariant:
  assumes "initial s0" and "valid_ops s0 ops"
  shows "\<exists>s. run s0 ops = Some s \<and> block_list_inv s"
proof -
  from assms(1) have "wf_list s0 []" by (simp add: initial_def)
  from run_wf [OF this assms(2)] obtain s as where "run s0 ops = Some s" "wf_list s as"
    by blast
  with wf_block_list_inv show ?thesis by blast
qed

lemma block_list_invariant_example:
  "initial ex_init \<and>
   valid_ops ex_init [Malloc 20, Calloc 3 4, Free 4120, Realloc 4164 20, Free 4164] \<and>
   map_option block_list
     (run ex_init [Malloc 20, Calloc 3 4, Free 4120, Realloc 4164 20, Free 4164])
     = Some (Some [4096]) \<and>
   (\<exists>s. run ex_init [Malloc 20, Calloc 3 4, Free 4120, Realloc 4164 20, Free 4164] = Some s \<and>
        block_list_inv s)"
proof -
  have 1: "initial ex_init" unfolding initial_def by (rule ex_init_wf)
  have 2: "valid_ops ex_init [Malloc 20, Calloc 3 4, Free 4120, Realloc 4164 20, Free 4164]"
    by (simp add: ex_init_def eval_defs)
  have 3: "map_option block_list
     (run ex_init [Malloc 20, Calloc 3 4, Free 4120, Realloc 4164 20, Free 4164])
     = Some (Some [4096])"
    by (simp add: ex_init_def eval_defs)
  from 1 2 3 block_list_invariant [OF 1 2] show ?thesis by blast
qed

text \<open>
  The condition on the handles is the contract of the callers: \<^verbatim>\<open>free\<close> trusts its argument.
  Without it the order can be broken with small sizes too. Here the
  handle 4145 is freed a second time, when its old header lies inside the payload of the
  block at 4096 and the sizes make its payload end at the break again: the block at 4150
  becomes \<^verbatim>\<open>tail\<close> with the break below it, and the next block is put at 4121.
\<close>

lemma double_free_breaks_order:
  "map_option block_list
     (run ex_init [Malloc 1, Malloc 55, Free 4145, Free 4120, Malloc 30, Malloc 1, Malloc 1,
                   Free 4145, Malloc 1])
     = Some (Some [4096, 4150, 4121])"
  by (simp add: ex_init_def eval_defs)

end
